theory Spec2Isabelle
  imports Complex_Main "HOL-Library.Multiset"
begin

section \<open>Python text primitives used by the server and the client\<close>

text \<open>
  A Python \<open>str\<close> is modelled as a HOL \<open>string\<close>, one \<open>char\<close> per code point; the model
  covers the code points below 256. The functions below follow the behaviour of the
  built-in methods the sources call: \<open>str.strip()\<close>, \<open>str.lower()\<close>,
  \<open>str.split(sep, 1)\<close>, \<open>str.split(sep)\<close>, \<open>str.startswith\<close>, \<open>sep.join\<close>.
\<close>

definition isspace :: "char \<Rightarrow> bool" where
  "isspace c =
     (let n = (of_char c :: nat)
      in (9 \<le> n \<and> n \<le> 13) \<or> (28 \<le> n \<and> n \<le> 32) \<or> n = 133 \<or> n = 160)"

definition strip :: "string \<Rightarrow> string" where
  "strip s = rev (dropWhile isspace (rev (dropWhile isspace s)))"

definition lower_char :: "char \<Rightarrow> char" where
  "lower_char c =
     (let n = (of_char c :: nat)
      in if (65 \<le> n \<and> n \<le> 90) \<or> (192 \<le> n \<and> n \<le> 214) \<or> (216 \<le> n \<and> n \<le> 222)
         then char_of (n + 32) else c)"

definition lower :: "string \<Rightarrow> string" where
  "lower s = map lower_char s"

text \<open>\<open>s.split(' ', 1)\<close>: at most one split, at the first occurrence of the separator.\<close>

definition split1 :: "char \<Rightarrow> string \<Rightarrow> string list" where
  "split1 sep s =
     (if sep \<in> set s
      then [takeWhile (\<lambda>c. c \<noteq> sep) s, tl (dropWhile (\<lambda>c. c \<noteq> sep) s)]
      else [s])"

text \<open>\<open>s.split(sep)\<close>: every occurrence splits; the result is never empty.\<close>

fun split_on :: "char \<Rightarrow> string \<Rightarrow> string list" where
  "split_on sep [] = [[]]"
| "split_on sep (c # cs) =
     (if c = sep then [] # split_on sep cs
      else (case split_on sep cs of [] \<Rightarrow> [[c]] | w # ws \<Rightarrow> (c # w) # ws))"

fun startswith :: "string \<Rightarrow> string \<Rightarrow> bool" where
  "startswith s [] = True"
| "startswith [] (p # ps) = False"
| "startswith (c # cs) (p # ps) = (c = p \<and> startswith cs ps)"

fun join_with :: "string \<Rightarrow> string list \<Rightarrow> string" where
  "join_with sep [] = []"
| "join_with sep [x] = x"
| "join_with sep (x # y # ys) = x @ sep @ join_with sep (y # ys)"

definition digit_char :: "nat \<Rightarrow> char" where
  "digit_char d = char_of (48 + d)"

function show_nat :: "nat \<Rightarrow> string" where
  "show_nat n = (if n < 10 then [digit_char n] else show_nat (n div 10) @ [digit_char (n mod 10)])"
  by pat_completeness auto
termination
  by (relation "measure id") auto

declare show_nat.simps [simp del]

definition show_int :: "int \<Rightarrow> string" where
  "show_int i = (if i < 0 then CHR ''-'' # show_nat (nat (- i)) else show_nat (nat i))"

text \<open>
  \<open>f"{num / den:.2f}"\<close> for integers \<open>num\<close> and \<open>den > 0\<close>: the quotient rounded to two
  decimals, ties to even. The sources divide by \<open>1024**3\<close> and \<open>1024**2\<close>; a division of
  an integer below \<open>2^53\<close> by a power of two is exact in binary floating point, so the
  rounding of the exact quotient is what Python prints.
\<close>

definition fmt_2f :: "int \<Rightarrow> int \<Rightarrow> string" where
  "fmt_2f num den =
     (let a = 100 * \<bar>num\<bar>; q = a div den; r = a mod den;
          h = nat (if 2 * r > den \<or> (2 * r = den \<and> odd q) then q + 1 else q)
      in (if num < 0 then ''-'' else '''') @ show_nat (h div 100) @ ''.'' @
         [digit_char (h mod 100 div 10), digit_char (h mod 10)])"

section \<open>POSIX path functions\<close>

text \<open>
  \<open>os.path.join\<close>, \<open>os.path.isabs\<close>, \<open>os.path.normpath\<close> and \<open>os.path.abspath\<close> as the
  POSIX flavour of the standard library computes them; the current working directory
  that \<open>abspath\<close> reads is a parameter.
\<close>

definition isabs :: "string \<Rightarrow> bool" where
  "isabs p = startswith p ''/''"

definition endswith_sep :: "string \<Rightarrow> bool" where
  "endswith_sep p = (p \<noteq> [] \<and> last p = CHR ''/'')"

definition path_join :: "string \<Rightarrow> string \<Rightarrow> string" where
  "path_join a b =
     (if startswith b ''/'' then b
      else if a = [] \<or> endswith_sep a then a @ b
      else a @ ''/'' @ b)"

definition norm_step :: "nat \<Rightarrow> string list \<Rightarrow> string \<Rightarrow> string list" where
  "norm_step initial_slashes new_comps part =
     (if part = [] \<or> part = ''.'' then new_comps
      else if part \<noteq> ''..'' \<or> (initial_slashes = 0 \<and> new_comps = [])
                \<or> (new_comps \<noteq> [] \<and> last new_comps = ''..'')
           then new_comps @ [part]
      else if new_comps \<noteq> [] then butlast new_comps
      else new_comps)"

definition normpath :: "string \<Rightarrow> string" where
  "normpath path =
     (if path = [] then ''.''
      else
        let initial_slashes =
              (if startswith path ''/''
               then (if startswith path ''//'' \<and> \<not> startswith path ''///'' then 2 else 1)
               else 0);
            comps = foldl (norm_step initial_slashes) [] (split_on CHR ''/'' path);
            p = replicate initial_slashes CHR ''/'' @ join_with ''/'' comps
        in if p = [] then ''.'' else p)"

definition abspath :: "string \<Rightarrow> string \<Rightarrow> string" where
  "abspath cwd path = normpath (if isabs path then path else path_join cwd path)"

section \<open>JSON values and \<open>json.dumps(obj, indent=2)\<close>\<close>

text \<open>
  The trees that the handlers pass to \<open>json.dumps\<close>. A dictionary is an association list
  in insertion order. A float is carried as the text of its \<open>repr\<close>; arithmetic on floats
  is not modelled.
\<close>

datatype json =
    JNull
  | JBool bool
  | JInt int
  | JFloat string
  | JStr string
  | JArr "json list"
  | JObj "(string \<times> json) list"

abbreviation dquote :: char where "dquote \<equiv> CHR 0x22"
abbreviation backslash :: char where "backslash \<equiv> CHR 0x5C"
abbreviation newline :: char where "newline \<equiv> CHR 0x0A"

definition hex_char :: "nat \<Rightarrow> char" where
  "hex_char d = (if d < 10 then char_of (48 + d) else char_of (87 + d))"

text \<open>The escapes of the encoder with \<open>ensure_ascii\<close> set, its default.\<close>

definition escape_char :: "char \<Rightarrow> string" where
  "escape_char c =
     (let n = (of_char c :: nat)
      in if c = backslash then [backslash, backslash]
         else if c = dquote then [backslash, dquote]
         else if n = 8 then [backslash, CHR ''b'']
         else if n = 12 then [backslash, CHR ''f'']
         else if n = 10 then [backslash, CHR ''n'']
         else if n = 13 then [backslash, CHR ''r'']
         else if n = 9 then [backslash, CHR ''t'']
         else if n < 32 \<or> 126 < n
              then [backslash, CHR ''u'', CHR ''0'', CHR ''0'', hex_char (n div 16), hex_char (n mod 16)]
         else [c])"

definition encode_str :: "string \<Rightarrow> string" where
  "encode_str s = dquote # concat (map escape_char s) @ [dquote]"

definition float_text :: "string \<Rightarrow> string" where
  "float_text t =
     (if t = ''nan'' then ''NaN''
      else if t = ''inf'' then ''Infinity''
      else if t = ''-inf'' then ''-Infinity''
      else t)"

definition newline_indent :: "nat \<Rightarrow> string" where
  "newline_indent lvl = newline # replicate (2 * lvl) CHR '' ''"

fun dumps_at :: "nat \<Rightarrow> json \<Rightarrow> string" where
  "dumps_at lvl JNull = ''null''"
| "dumps_at lvl (JBool b) = (if b then ''true'' else ''false'')"
| "dumps_at lvl (JInt i) = show_int i"
| "dumps_at lvl (JFloat t) = float_text t"
| "dumps_at lvl (JStr s) = encode_str s"
| "dumps_at lvl (JArr xs) =
     (if xs = [] then ''[]''
      else ''['' @ newline_indent (Suc lvl)
           @ join_with ('','' @ newline_indent (Suc lvl)) (map (dumps_at (Suc lvl)) xs)
           @ newline_indent lvl @ '']'')"
| "dumps_at lvl (JObj kvs) =
     (if kvs = [] then ''{}''
      else ''{'' @ newline_indent (Suc lvl)
           @ join_with ('','' @ newline_indent (Suc lvl))
               (map (\<lambda>kv. encode_str (fst kv) @ '': '' @ dumps_at (Suc lvl) (snd kv)) kvs)
           @ newline_indent lvl @ ''}'')"

definition dumps :: "json \<Rightarrow> string" where
  "dumps v = dumps_at 0 v"

text \<open>Assignment \<open>d[k] = v\<close> on a dictionary: an existing key keeps its place.\<close>

fun dict_set :: "string \<Rightarrow> 'v \<Rightarrow> (string \<times> 'v) list \<Rightarrow> (string \<times> 'v) list" where
  "dict_set k v [] = [(k, v)]"
| "dict_set k v (kv # d) = (if fst kv = k then (k, v) # d else kv # dict_set k v d)"

section \<open>\<open>json.loads\<close>\<close>

text \<open>
  The decoder of the standard library on the texts of the model. \<open>None\<close> stands for
  \<open>JSONDecodeError\<close>. The recursion carries a bound on the number of nested values and
  elements that is set from the length of the text, which is more than any text needs;
  the recursion limit of the interpreter is not modelled. An escape \<open>\uXXXX\<close> for a code
  point from 256 on is outside the texts of the model and is refused. A number is read
  as the longest run of number characters and has to be a number as a whole: the
  library reads the longest prefix that is a number and then fails on the number
  character that is left over, since no number character can follow a value.
\<close>

definition is_ws :: "char \<Rightarrow> bool" where
  "is_ws c = (c = CHR '' '' \<or> c = CHR 0x09 \<or> c = CHR 0x0A \<or> c = CHR 0x0D)"

definition skip_ws :: "string \<Rightarrow> string" where
  "skip_ws s = dropWhile is_ws s"

definition is_digit :: "char \<Rightarrow> bool" where
  "is_digit c = (let n = (of_char c :: nat) in 48 \<le> n \<and> n \<le> 57)"

definition hex_val :: "char \<Rightarrow> nat option" where
  "hex_val c =
     (let n = (of_char c :: nat)
      in if 48 \<le> n \<and> n \<le> 57 then Some (n - 48)
         else if 97 \<le> n \<and> n \<le> 102 then Some (n - 87)
         else if 65 \<le> n \<and> n \<le> 70 then Some (n - 55)
         else None)"

definition unescape :: "char \<Rightarrow> char option" where
  "unescape e =
     (if e = dquote then Some dquote
      else if e = backslash then Some backslash
      else if e = CHR ''/'' then Some CHR ''/''
      else if e = CHR ''b'' then Some (CHR 0x08)
      else if e = CHR ''f'' then Some (CHR 0x0C)
      else if e = CHR ''n'' then Some (CHR 0x0A)
      else if e = CHR ''r'' then Some (CHR 0x0D)
      else if e = CHR ''t'' then Some (CHR 0x09)
      else None)"

definition hex4 :: "char \<Rightarrow> char \<Rightarrow> char \<Rightarrow> char \<Rightarrow> nat option" where
  "hex4 a b c d =
     (case hex_val a of None \<Rightarrow> None | Some x \<Rightarrow>
      case hex_val b of None \<Rightarrow> None | Some y \<Rightarrow>
      case hex_val c of None \<Rightarrow> None | Some z \<Rightarrow>
      case hex_val d of None \<Rightarrow> None | Some w \<Rightarrow>
        Some (((x * 16 + y) * 16 + z) * 16 + w))"

definition cons_text :: "char \<Rightarrow> (string \<times> string) option \<Rightarrow> (string \<times> string) option" where
  "cons_text c r = (case r of None \<Rightarrow> None | Some (t, rest) \<Rightarrow> Some (c # t, rest))"

text \<open>The text of a string, read from behind its opening quote, and what follows it.\<close>

fun scan_string :: "string \<Rightarrow> (string \<times> string) option" where
  "scan_string [] = None"
| "scan_string (c # cs) =
     (if c = dquote then Some ([], cs)
      else if c = backslash then
        (case cs of
           [] \<Rightarrow> None
         | e # es \<Rightarrow>
             if e = CHR ''u'' then
               (case es of
                  h1 # h2 # h3 # h4 # r \<Rightarrow>
                    (case hex4 h1 h2 h3 h4 of
                       None \<Rightarrow> None
                     | Some n \<Rightarrow> if n < 256 then cons_text (char_of n) (scan_string r) else None)
                | _ \<Rightarrow> None)
             else (case unescape e of
                     None \<Rightarrow> None
                   | Some ch \<Rightarrow> cons_text ch (scan_string es)))
      else if (of_char c :: nat) < 32 then None
      else cons_text c (scan_string cs))"

definition is_numchar :: "char \<Rightarrow> bool" where
  "is_numchar c =
     (is_digit c \<or> c = CHR ''-'' \<or> c = CHR ''+'' \<or> c = CHR ''.'' \<or> c = CHR ''e'' \<or> c = CHR ''E'')"

definition digits_val :: "string \<Rightarrow> nat" where
  "digits_val ds = foldl (\<lambda>n c. 10 * n + (of_char c - 48)) 0 ds"

text \<open>The integer part of a number: \<open>0\<close>, or digits that do not start with \<open>0\<close>.\<close>

definition int_part_ok :: "string \<Rightarrow> bool" where
  "int_part_ok ds = (ds \<noteq> [] \<and> list_all is_digit ds \<and> (hd ds = CHR ''0'' \<longrightarrow> ds = ''0''))"

definition frac_ok :: "string \<Rightarrow> bool" where
  "frac_ok f = (case f of [] \<Rightarrow> True | c # ds \<Rightarrow> c = CHR ''.'' \<and> ds \<noteq> [] \<and> list_all is_digit ds)"

definition exp_ok :: "string \<Rightarrow> bool" where
  "exp_ok x =
     (case x of
        [] \<Rightarrow> True
      | c # r \<Rightarrow>
          (c = CHR ''e'' \<or> c = CHR ''E'') \<and>
          (let ds = (case r of [] \<Rightarrow> [] | s # t \<Rightarrow> if s = CHR ''+'' \<or> s = CHR ''-'' then t else r)
           in ds \<noteq> [] \<and> list_all is_digit ds))"

definition number_token :: "string \<Rightarrow> json option" where
  "number_token tok =
     (let body = (case tok of [] \<Rightarrow> [] | c # r \<Rightarrow> if c = CHR ''-'' then r else tok);
          ip = takeWhile is_digit body;
          after_ip = dropWhile is_digit body;
          frac = (case after_ip of
                    [] \<Rightarrow> []
                  | c # r \<Rightarrow> if c = CHR ''.'' then c # takeWhile is_digit r else []);
          ex = drop (length frac) after_ip
      in if int_part_ok ip \<and> frac_ok frac \<and> exp_ok ex
         then (if frac = [] \<and> ex = []
               then Some (JInt (if body = tok then int (digits_val ip) else - int (digits_val ip)))
               else Some (JFloat tok))
         else None)"

definition scan_number :: "string \<Rightarrow> (json \<times> string) option" where
  "scan_number s =
     (case number_token (takeWhile is_numchar s) of
        None \<Rightarrow> None
      | Some v \<Rightarrow> Some (v, dropWhile is_numchar s))"

fun scan_once :: "nat \<Rightarrow> string \<Rightarrow> (json \<times> string) option"
  and scan_array :: "nat \<Rightarrow> string \<Rightarrow> (json list \<times> string) option"
  and scan_object :: "nat \<Rightarrow> (string \<times> json) list \<Rightarrow> string \<Rightarrow> ((string \<times> json) list \<times> string) option"
where
  "scan_once 0 s = None"
| "scan_once (Suc n) s =
     (case s of
        [] \<Rightarrow> None
      | c # cs \<Rightarrow>
          if c = dquote then
            (case scan_string cs of None \<Rightarrow> None | Some (t, r) \<Rightarrow> Some (JStr t, r))
          else if c = CHR ''{'' then
            (case skip_ws cs of
               [] \<Rightarrow> None
             | d # ds \<Rightarrow>
                 if d = CHR ''}'' then Some (JObj [], ds)
                 else (case scan_object n [] (d # ds) of
                         None \<Rightarrow> None
                       | Some (kvs, r) \<Rightarrow> Some (JObj kvs, r)))
          else if c = CHR ''['' then
            (case skip_ws cs of
               [] \<Rightarrow> None
             | d # ds \<Rightarrow>
                 if d = CHR '']'' then Some (JArr [], ds)
                 else (case scan_array n (d # ds) of
                         None \<Rightarrow> None
                       | Some (vs, r) \<Rightarrow> Some (JArr vs, r)))
          else if startswith s ''null'' then Some (JNull, drop 4 s)
          else if startswith s ''true'' then Some (JBool True, drop 4 s)
          else if startswith s ''false'' then Some (JBool False, drop 5 s)
          else if startswith s ''NaN'' then Some (JFloat ''nan'', drop 3 s)
          else if startswith s ''Infinity'' then Some (JFloat ''inf'', drop 8 s)
          else if startswith s ''-Infinity'' then Some (JFloat ''-inf'', drop 9 s)
          else scan_number s)"
| "scan_array 0 s = None"
| "scan_array (Suc n) s =
     (case scan_once n s of
        None \<Rightarrow> None
      | Some (v, r) \<Rightarrow>
          (case skip_ws r of
             [] \<Rightarrow> None
           | d # ds \<Rightarrow>
               if d = CHR '']'' then Some ([v], ds)
               else if d = CHR '','' then
                 (case scan_array n (skip_ws ds) of
                    None \<Rightarrow> None
                  | Some (vs, r') \<Rightarrow> Some (v # vs, r'))
               else None))"
| "scan_object 0 acc s = None"
| "scan_object (Suc n) acc s =
     (case s of
        [] \<Rightarrow> None
      | q # cs \<Rightarrow>
          if q = dquote then
            (case scan_string cs of
               None \<Rightarrow> None
             | Some (key, r) \<Rightarrow>
                 (case skip_ws r of
                    [] \<Rightarrow> None
                  | col # r1 \<Rightarrow>
                      if col = CHR '':'' then
                        (case scan_once n (skip_ws r1) of
                           None \<Rightarrow> None
                         | Some (v, r2) \<Rightarrow>
                             (case skip_ws r2 of
                                [] \<Rightarrow> None
                              | d # ds \<Rightarrow>
                                  if d = CHR ''}'' then Some (dict_set key v acc, ds)
                                  else if d = CHR '','' then
                                    scan_object n (dict_set key v acc) (skip_ws ds)
                                  else None))
                      else None))
          else None)"

definition loads :: "string \<Rightarrow> json option" where
  "loads s =
     (case scan_once (Suc (length s)) (skip_ws s) of
        None \<Rightarrow> None
      | Some (v, r) \<Rightarrow> if skip_ws r = [] then Some v else None)"

section \<open>Exceptions, the introspection provider and the server object\<close>

datatype exn =
    ConnectionResetError string
  | NoSuchProcess string
  | AccessDenied string
  | OSError string
  | TypeError string
  | KeyError string
  | ValueError string
  | OtherException string

fun exn_str :: "exn \<Rightarrow> string" where
  "exn_str (ConnectionResetError m) = m"
| "exn_str (NoSuchProcess m) = m"
| "exn_str (AccessDenied m) = m"
| "exn_str (OSError m) = m"
| "exn_str (TypeError m) = m"
| "exn_str (KeyError m) = m"
| "exn_str (ValueError m) = m"
| "exn_str (OtherException m) = m"

definition bind_res :: "exn + 'a \<Rightarrow> ('a \<Rightarrow> exn + 'b) \<Rightarrow> exn + 'b" where
  "bind_res r f = (case r of Inl e \<Rightarrow> Inl e | Inr x \<Rightarrow> f x)"

text \<open>A float of the provider: its exact value, for comparisons, and its \<open>repr\<close>.\<close>

record pyfloat =
  fval :: rat
  frepr :: string

record proc_info =
  pid :: int
  name :: "string option"
  memory_percent :: "pyfloat option"

record svmem =
  vm_total :: int
  vm_available :: int
  vm_percent :: pyfloat

record sswap =
  sw_total :: int
  sw_used :: int

record snetio =
  bytes_sent :: int
  bytes_recv :: int
  packets_sent :: int
  packets_recv :: int

record sdiskusage =
  du_total :: int
  du_used :: int
  du_free :: int
  du_percent :: pyfloat

text \<open>
  What the calls into \<open>platform\<close>, \<open>datetime\<close>, \<open>psutil\<close> and \<open>os\<close> return at the moment a
  command runs. A call that can raise returns a sum. \<open>process_iter\<close> is the list of the
  \<open>info\<close> dictionaries in iteration order; \<open>psutil\<close> fills a field with \<open>None\<close> when access
  to it is denied, and leaves out a process that has gone. The order of the three keys in
  an \<open>info\<close> dictionary is the provider's; the model fixes one. \<open>cpu_freq\<close> is called
  twice by the handler and stands for both calls. \<open>now_text\<close> is the time of day as
  \<open>strftime\<close> formats it.
\<close>

record provider =
  platform_system :: string
  platform_version :: string
  platform_machine :: string
  platform_processor :: string
  now_text :: string
  cpu_percent :: "exn + pyfloat list"
  cpu_freq :: "exn + (pyfloat \<times> pyfloat \<times> pyfloat) option"
  cpu_count_physical :: "exn + int option"
  cpu_count_logical :: "exn + int option"
  virtual_memory :: "exn + svmem"
  swap_memory :: "exn + sswap"
  process_iter :: "exn + proc_info list"
  net_io_counters :: "exn + snetio"
  disk_partitions :: "exn + string list"
  disk_usage :: "string \<Rightarrow> exn + sdiskusage"
  getcwd :: string
  os_listdir :: "string \<Rightarrow> exn + string list"

datatype sock = Sock_open | Sock_closed

datatype event =
    Sent string
  | Client_closed
  | Socket_closed
  | Makedirs string
  | Log_info string
  | Log_error string

text \<open>
  The attributes of \<open>RemoteServer\<close>, and the trace of what the object has done to the
  outside: bytes handed to the peer, sockets closed, directories created, log lines.
\<close>

record server =
  host :: string
  port :: int
  socket :: "sock option"
  client :: "sock option"
  allowed_dirs :: "string list"
  events :: "event list"

definition emit :: "event \<Rightarrow> server \<Rightarrow> server" where
  "emit e st = st\<lparr>events := events st @ [e]\<rparr>"

definition setup_directories :: "server \<Rightarrow> server" where
  "setup_directories st = foldl (\<lambda>s directory. emit (Makedirs directory) s) st (allowed_dirs st)"

definition init :: "string \<Rightarrow> int \<Rightarrow> server" where
  "init h p =
     setup_directories
       \<lparr>host = h, port = p, socket = None, client = None,
        allowed_dirs = [''./shared'', ''./downloads''], events = []\<rparr>"

definition cleanup :: "server \<Rightarrow> server" where
  "cleanup st =
     (let st1 = (case client st of
                   None \<Rightarrow> st
                 | Some _ \<Rightarrow> emit Client_closed (st\<lparr>client := Some Sock_closed\<rparr>));
          st2 = (case socket st1 of
                   None \<Rightarrow> st1
                 | Some _ \<Rightarrow> emit Socket_closed (st1\<lparr>socket := Some Sock_closed\<rparr>))
      in emit (Log_info ''Server cleaned up and shut down'') st2)"

section \<open>The command handlers\<close>

text \<open>
  Every handler takes the provider, the server object and the argument text, and returns
  the response text or the exception that leaves the handler, with the server object as
  the handler left it.
\<close>

type_synonym handler = "provider \<Rightarrow> server \<Rightarrow> string \<Rightarrow> (exn + string) \<times> server"

definition get_system_info :: handler where
  "get_system_info pv st args =
     (Inr ([newline] @ ''System Information:'' @ [newline]
           @ ''OS: '' @ platform_system pv @ '' '' @ platform_version pv @ [newline]
           @ ''Machine: '' @ platform_machine pv @ [newline]
           @ ''Processor: '' @ platform_processor pv @ [newline]), st)"

definition get_time :: handler where
  "get_time pv st args = (Inr (''Server time: '' @ now_text pv), st)"

definition echo_message :: handler where
  "echo_message pv st message = (Inr (''Echo: '' @ message), st)"

definition exit_connection :: handler where
  "exit_connection pv st args = (Inr ''Server shutting down...'', cleanup st)"

definition freq_json :: "(pyfloat \<times> pyfloat \<times> pyfloat) option \<Rightarrow> json" where
  "freq_json f =
     (case f of
        None \<Rightarrow> JObj []
      | Some (cur, lo, hi) \<Rightarrow>
          JObj [(''current'', JFloat (frepr cur)), (''min'', JFloat (frepr lo)),
                (''max'', JFloat (frepr hi))])"

definition count_json :: "int option \<Rightarrow> json" where
  "count_json c = (case c of None \<Rightarrow> JNull | Some n \<Rightarrow> JInt n)"

definition cpu_info :: "provider \<Rightarrow> exn + json" where
  "cpu_info pv =
     bind_res (cpu_percent pv) (\<lambda>percents.
     bind_res (cpu_freq pv) (\<lambda>freq.
     bind_res (cpu_count_physical pv) (\<lambda>physical.
     bind_res (cpu_count_logical pv) (\<lambda>logical.
       Inr (JObj [(''cpu_percent'', JArr (map (\<lambda>f. JFloat (frepr f)) percents)),
                  (''cpu_freq'', freq_json freq),
                  (''cpu_count'', count_json physical),
                  (''cpu_count_logical'', count_json logical)])))))"

definition get_cpu_info :: handler where
  "get_cpu_info pv st args = (map_sum id dumps (cpu_info pv), st)"

definition gib :: int where "gib = 1024 ^ 3"
definition mib :: int where "mib = 1024 ^ 2"

definition mem_info :: "provider \<Rightarrow> exn + json" where
  "mem_info pv =
     bind_res (virtual_memory pv) (\<lambda>memory.
     bind_res (swap_memory pv) (\<lambda>swap.
       Inr (JObj [(''total'', JStr (fmt_2f (vm_total memory) gib @ '' GB'')),
                  (''available'', JStr (fmt_2f (vm_available memory) gib @ '' GB'')),
                  (''percent_used'', JStr (frepr (vm_percent memory) @ ''%'')),
                  (''swap_total'', JStr (fmt_2f (sw_total swap) gib @ '' GB'')),
                  (''swap_used'', JStr (fmt_2f (sw_used swap) gib @ '' GB''))])))"

definition get_memory_info :: handler where
  "get_memory_info pv st args = (map_sum id dumps (mem_info pv), st)"

text \<open>
  \<open>sorted(..., key=..., reverse=True)\<close>: the list is reversed, sorted stably in ascending
  order of the key, and reversed again.
\<close>

definition sorted_reverse :: "('a \<Rightarrow> 'k::linorder) \<Rightarrow> 'a list \<Rightarrow> 'a list" where
  "sorted_reverse key xs = rev (sort_key key (rev xs))"

text \<open>The sort key \<open>x.info['memory_percent'] or 0\<close>.\<close>

definition memory_key :: "proc_info \<Rightarrow> rat" where
  "memory_key x = (case memory_percent x of None \<Rightarrow> 0 | Some f \<Rightarrow> fval f)"

definition info_json :: "proc_info \<Rightarrow> json" where
  "info_json p =
     JObj [(''pid'', JInt (pid p)),
           (''name'', case name p of None \<Rightarrow> JNull | Some n \<Rightarrow> JStr n),
           (''memory_percent'', case memory_percent p of None \<Rightarrow> JNull | Some f \<Rightarrow> JFloat (frepr f))]"

text \<open>
  The loop body \<open>processes.append(proc.info)\<close> reads an attribute that is already
  there, so the \<open>except\<close> clause around it is never entered: every one of the selected
  processes is appended.
\<close>

definition top_processes :: "proc_info list \<Rightarrow> proc_info list" where
  "top_processes procs = take 10 (sorted_reverse memory_key procs)"

definition processes_info :: "provider \<Rightarrow> exn + json" where
  "processes_info pv =
     bind_res (process_iter pv) (\<lambda>procs. Inr (JArr (map info_json (top_processes procs))))"

definition get_running_processes :: handler where
  "get_running_processes pv st args = (map_sum id dumps (processes_info pv), st)"

definition net_info :: "provider \<Rightarrow> exn + json" where
  "net_info pv =
     bind_res (net_io_counters pv) (\<lambda>net_stats.
       Inr (JObj [(''bytes_sent'', JStr (fmt_2f (bytes_sent net_stats) mib @ '' MB'')),
                  (''bytes_recv'', JStr (fmt_2f (bytes_recv net_stats) mib @ '' MB'')),
                  (''packets_sent'', JInt (packets_sent net_stats)),
                  (''packets_recv'', JInt (packets_recv net_stats))]))"

definition get_network_stats :: handler where
  "get_network_stats pv st args = (map_sum id dumps (net_info pv), st)"

definition access_denied :: string where
  "access_denied = ''Access denied. Path not in allowed directories.''"

definition list_directory :: handler where
  "list_directory pv st path =
     (let requested_path = abspath (getcwd pv) (path_join ''.'' (strip path))
      in if \<not> list_ex (\<lambda>allowed. startswith requested_path (abspath (getcwd pv) allowed))
                        (allowed_dirs st)
         then (Inr access_denied, st)
         else (case os_listdir pv requested_path of
                 Inl e \<Rightarrow> (Inr (''Error listing directory: '' @ exn_str e), st)
               | Inr items \<Rightarrow>
                   (Inr (dumps (JObj [(''path'', JStr requested_path),
                                      (''contents'', JArr (map JStr items))])), st)))"

definition usage_json :: "sdiskusage \<Rightarrow> json" where
  "usage_json usage =
     JObj [(''total'', JStr (fmt_2f (du_total usage) gib @ '' GB'')),
           (''used'', JStr (fmt_2f (du_used usage) gib @ '' GB'')),
           (''free'', JStr (fmt_2f (du_free usage) gib @ '' GB'')),
           (''percent'', JStr (frepr (du_percent usage) @ ''%''))]"

fun disk_loop :: "provider \<Rightarrow> string list \<Rightarrow> (string \<times> json) list \<Rightarrow> (string \<times> json) list" where
  "disk_loop pv [] disk_info = disk_info"
| "disk_loop pv (mountpoint # rest) disk_info =
     (case disk_usage pv mountpoint of
        Inl e \<Rightarrow> disk_loop pv rest disk_info
      | Inr usage \<Rightarrow> disk_loop pv rest (dict_set mountpoint (usage_json usage) disk_info))"

definition disk_info_of :: "provider \<Rightarrow> exn + json" where
  "disk_info_of pv =
     bind_res (disk_partitions pv) (\<lambda>partitions. Inr (JObj (disk_loop pv partitions [])))"

definition get_disk_space :: handler where
  "get_disk_space pv st args = (map_sum id dumps (disk_info_of pv), st)"

section \<open>Dispatch and the session loop\<close>

definition commands :: "(string \<times> handler) list" where
  "commands =
     [(''sysinfo'', get_system_info),
      (''time'', get_time),
      (''echo'', echo_message),
      (''exit'', exit_connection),
      (''cpu'', get_cpu_info),
      (''memory'', get_memory_info),
      (''processes'', get_running_processes),
      (''netstat'', get_network_stats),
      (''listdir'', list_directory),
      (''diskspace'', get_disk_space)]"

definition invalid_command :: string where
  "invalid_command = ''Invalid command. Use 'help' to see available commands.''"

definition keyword_of :: "string \<Rightarrow> string" where
  "keyword_of command = hd (split1 CHR '' '' (lower (strip command)))"

definition args_of :: "string \<Rightarrow> string" where
  "args_of command =
     (let cmd_parts = split1 CHR '' '' (lower (strip command))
      in if length cmd_parts > 1 then cmd_parts ! 1 else [])"

definition process_command :: "provider \<Rightarrow> server \<Rightarrow> string \<Rightarrow> (exn + string) \<times> server" where
  "process_command pv st command =
     (case map_of commands (keyword_of command) of
        Some h \<Rightarrow> h pv st (args_of command)
      | None \<Rightarrow> (Inr invalid_command, st))"

text \<open>\<open>self.client.send\<close>: writing to a socket that was closed raises.\<close>

definition send :: "server \<Rightarrow> string \<Rightarrow> exn + server" where
  "send st response =
     (case client st of
        Some Sock_open \<Rightarrow> Inr (emit (Sent response) st)
      | _ \<Rightarrow> Inl (OSError ''[Errno 9] Bad file descriptor''))"

text \<open>
  What one call of \<open>self.client.recv(1024).decode()\<close> gives: text (empty when the peer has
  closed), a reset connection, or another exception. When the list of what the peer
  sends is used up, the peer has closed and \<open>recv\<close> returns the empty text.
\<close>

datatype recv_result = Data string | Conn_reset | Recv_error exn

definition log_failure :: "exn \<Rightarrow> server \<Rightarrow> server" where
  "log_failure e st = emit (Log_error (''Error handling client: '' @ exn_str e)) st"

fun handle_client :: "provider \<Rightarrow> server \<Rightarrow> recv_result list \<Rightarrow> server" where
  "handle_client pv st [] =
     (if client st = Some Sock_open then st
      else log_failure (OSError ''[Errno 9] Bad file descriptor'') st)"
| "handle_client pv st (r # rs) =
     (if client st \<noteq> Some Sock_open
      then log_failure (OSError ''[Errno 9] Bad file descriptor'') st
      else (case r of
              Conn_reset \<Rightarrow> emit (Log_error ''Client disconnected unexpectedly'') st
            | Recv_error e \<Rightarrow> log_failure e st
            | Data d \<Rightarrow>
                if d = [] then st
                else (case process_command pv st d of
                        (Inl e, st') \<Rightarrow> log_failure e st'
                      | (Inr response, st') \<Rightarrow>
                          (case send st' response of
                             Inl e \<Rightarrow> log_failure e st'
                           | Inr st'' \<Rightarrow> handle_client pv st'' rs))))"

declare handle_client.simps [simp del]

text \<open>
  \<open>start_server\<close> from the accepted connection on: the session loop, then the
  \<open>finally\<close> clause.
\<close>

definition accepted :: "server \<Rightarrow> server" where
  "accepted st = st\<lparr>socket := Some Sock_open, client := Some Sock_open\<rparr>"

definition start_server :: "provider \<Rightarrow> server \<Rightarrow> recv_result list \<Rightarrow> server" where
  "start_server pv st inputs = cleanup (handle_client pv (accepted st) inputs)"

section \<open>The client's renderer\<close>

text \<open>
  What \<open>format_response\<close> does with the decoded data follows Python's rules for
  iteration, subscription and formatting on the values that \<open>json.loads\<close> can return.
  Three things come from outside and are parameters: the table layout of \<open>tabulate\<close>,
  the rounding of a float to one decimal, and the \<open>repr\<close> of a list or dictionary.
\<close>

record pylib =
  tabulate :: "json list list \<Rightarrow> string list \<Rightarrow> string"
  format_1f :: "string \<Rightarrow> string"
  repr_of :: "json \<Rightarrow> string"

definition type_name :: "json \<Rightarrow> string" where
  "type_name v =
     (case v of
        JNull \<Rightarrow> ''NoneType'' | JBool b \<Rightarrow> ''bool'' | JInt i \<Rightarrow> ''int'' | JFloat t \<Rightarrow> ''float''
      | JStr s \<Rightarrow> ''str'' | JArr xs \<Rightarrow> ''list'' | JObj kvs \<Rightarrow> ''dict'')"

text \<open>\<open>for p in data\<close>\<close>

definition py_iter :: "json \<Rightarrow> exn + json list" where
  "py_iter v =
     (case v of
        JArr xs \<Rightarrow> Inr xs
      | JObj kvs \<Rightarrow> Inr (map (\<lambda>kv. JStr (fst kv)) kvs)
      | JStr s \<Rightarrow> Inr (map (\<lambda>c. JStr [c]) s)
      | _ \<Rightarrow> Inl (TypeError (type_name v @ '' object is not iterable'')))"

text \<open>\<open>p['key']\<close>\<close>

definition py_getitem :: "json \<Rightarrow> string \<Rightarrow> exn + json" where
  "py_getitem v k =
     (case v of
        JObj kvs \<Rightarrow> (case map_of kvs k of None \<Rightarrow> Inl (KeyError k) | Some x \<Rightarrow> Inr x)
      | JArr xs \<Rightarrow> Inl (TypeError ''list indices must be integers or slices, not str'')
      | JStr s \<Rightarrow> Inl (TypeError ''string indices must be integers'')
      | _ \<Rightarrow> Inl (TypeError (type_name v @ '' object is not subscriptable'')))"

text \<open>\<open>p.get('key', default)\<close>, on a value that is a dictionary\<close>

definition py_get :: "json \<Rightarrow> string \<Rightarrow> json \<Rightarrow> json" where
  "py_get v k dflt =
     (case v of
        JObj kvs \<Rightarrow> (case map_of kvs k of None \<Rightarrow> dflt | Some x \<Rightarrow> x)
      | _ \<Rightarrow> dflt)"

text \<open>\<open>f"{x:.1f}"\<close>; an integer is taken to be below \<open>2^53\<close>.\<close>

definition fmt_1f :: "pylib \<Rightarrow> json \<Rightarrow> exn + string" where
  "fmt_1f lib v =
     (case v of
        JInt i \<Rightarrow> Inr (show_int i @ ''.0'')
      | JBool b \<Rightarrow> Inr (if b then ''1.0'' else ''0.0'')
      | JFloat t \<Rightarrow> Inr (format_1f lib t)
      | JStr s \<Rightarrow> Inl (ValueError ''Unknown format code f for object of type str'')
      | _ \<Rightarrow> Inl (TypeError (''unsupported format string passed to '' @ type_name v @ ''.__format__'')))"

text \<open>\<open>str(x)\<close>, as an f-string without a format code applies it\<close>

definition py_str :: "pylib \<Rightarrow> json \<Rightarrow> string" where
  "py_str lib v =
     (case v of
        JStr s \<Rightarrow> s
      | JInt i \<Rightarrow> show_int i
      | JFloat t \<Rightarrow> t
      | JNull \<Rightarrow> ''None''
      | JBool b \<Rightarrow> (if b then ''True'' else ''False'')
      | _ \<Rightarrow> repr_of lib v)"

definition process_row :: "pylib \<Rightarrow> json \<Rightarrow> exn + json list" where
  "process_row lib p =
     bind_res (py_getitem p ''pid'') (\<lambda>pid_cell.
     bind_res (py_getitem p ''name'') (\<lambda>name_cell.
     bind_res (fmt_1f lib (py_get p ''memory_percent'' (JInt 0))) (\<lambda>m.
       Inr [pid_cell, name_cell, JStr (m @ ''%'')])))"

fun map_res :: "('a \<Rightarrow> exn + 'b) \<Rightarrow> 'a list \<Rightarrow> exn + 'b list" where
  "map_res f [] = Inr []"
| "map_res f (x # xs) =
     (case f x of
        Inl e \<Rightarrow> Inl e
      | Inr y \<Rightarrow> (case map_res f xs of Inl e \<Rightarrow> Inl e | Inr ys \<Rightarrow> Inr (y # ys)))"

definition table_headers :: "string list" where
  "table_headers = [''PID'', ''Name'', ''Memory %'']"

text \<open>
  The result of \<open>format_response\<close>: what was printed, one entry for each \<open>print\<close>, and
  the exception that leaves the method, if one does.
\<close>

definition format_response :: "pylib \<Rightarrow> string \<Rightarrow> string \<Rightarrow> string list \<times> exn option" where
  "format_response lib command response =
     (let banner = [newline # ''Server response:'']
      in case loads response of
           None \<Rightarrow> (banner @ [response], None)
         | Some data \<Rightarrow>
             if startswith command ''processes'' then
               (case bind_res (py_iter data) (map_res (process_row lib)) of
                  Inl e \<Rightarrow> (banner, Some e)
                | Inr rows \<Rightarrow> (banner @ [tabulate lib rows table_headers], None))
             else if startswith command ''cpu'' \<or> startswith command ''memory''
                     \<or> startswith command ''netstat'' \<or> startswith command ''diskspace'' then
               (banner @ [dumps data], None)
             else if startswith command ''listdir'' then
               (case py_getitem data ''path'' of
                  Inl e \<Rightarrow> (banner, Some e)
                | Inr path \<Rightarrow>
                    (let header = newline # ''Contents of '' @ py_str lib path @ '':''
                     in case bind_res (py_getitem data ''contents'') py_iter of
                          Inl e \<Rightarrow> (banner @ [header], Some e)
                        | Inr items \<Rightarrow>
                            (banner @ [header] @ map (\<lambda>item. ''  '' @ py_str lib item) items, None)))
             else (banner @ [response], None))"

text \<open>
  One round of the loop of \<open>start_client\<close>: the line read from the user, what
  \<open>send_command\<close> returned for it (\<open>None\<close> when it logged an error), and how the round ends.
  The loop catches \<open>KeyboardInterrupt\<close> only, so an exception of the renderer leaves it.
\<close>

datatype outcome = Continue | Break | Propagates exn

definition client_turn :: "pylib \<Rightarrow> string \<Rightarrow> string option \<Rightarrow> string list \<times> outcome" where
  "client_turn lib line response =
     (let command = strip line;
          after = (if lower command = ''exit'' then Break else Continue)
      in if command = [] then ([], Continue)
         else (case response of
                 None \<Rightarrow> ([], after)
               | Some r \<Rightarrow>
                   if r = [] then ([], after)
                   else (case format_response lib command r of
                           (out, Some e) \<Rightarrow> (out, Propagates e)
                         | (out, None) \<Rightarrow> (out, after))))"

definition keys_of :: "json \<Rightarrow> string list" where
  "keys_of v = (case v of JObj kvs \<Rightarrow> map fst kvs | _ \<Rightarrow> [])"

text \<open>
  The texts that are the \<open>repr\<close> of a float: the three special values, and the number
  tokens with a fraction or an exponent.
\<close>

definition float_repr_ok :: "string \<Rightarrow> bool" where
  "float_repr_ok t =
     (t = ''nan'' \<or> t = ''inf'' \<or> t = ''-inf''
      \<or> (list_all is_numchar t \<and> number_token t = Some (JFloat t)))"

text \<open>
  The trees that \<open>json.dumps\<close> can be given by the handlers: floats are floats, and the
  keys of a dictionary are distinct.
\<close>

fun wf_json :: "json \<Rightarrow> bool" where
  "wf_json (JFloat t) = float_repr_ok t"
| "wf_json (JArr xs) = list_all wf_json xs"
| "wf_json (JObj kvs) = (distinct (map fst kvs) \<and> list_all (\<lambda>kv. wf_json (snd kv)) kvs)"
| "wf_json v = True"

section \<open>Auxiliary predicates on texts\<close>

text \<open>What may follow a number token, and how the text of a value starts.\<close>

definition safe_rest :: "string \<Rightarrow> bool" where
  "safe_rest rest = (case rest of [] \<Rightarrow> True | c # cs \<Rightarrow> \<not> is_numchar c)"

definition starts_value :: "string \<Rightarrow> bool" where
  "starts_value s =
     (case s of [] \<Rightarrow> False
      | c # cs \<Rightarrow> \<not> is_ws c \<and> c \<noteq> CHR '']'' \<and> c \<noteq> CHR ''}'')"

definition cpu_floats_ok :: "provider \<Rightarrow> bool" where
  "cpu_floats_ok pv =
     ((case cpu_percent pv of
         Inl e \<Rightarrow> True
       | Inr percents \<Rightarrow> list_all (\<lambda>f. float_repr_ok (frepr f)) percents)
      \<and> (case cpu_freq pv of
            Inr (Some (cur, lo, hi)) \<Rightarrow>
              float_repr_ok (frepr cur) \<and> float_repr_ok (frepr lo) \<and> float_repr_ok (frepr hi)
          | _ \<Rightarrow> True))"

section \<open>Sample hosts\<close>

text \<open>Concrete provider states at which the theorems below are instantiated.\<close>

definition quiet_host :: provider where
  "quiet_host =
     \<lparr>platform_system = ''Linux'', platform_version = ''#1 SMP'', platform_machine = ''x86_64'',
      platform_processor = ''x86_64'', now_text = ''2024-05-01 12:00:00'',
      cpu_percent = Inr [\<lparr>fval = 25 / 2, frepr = ''12.5''\<rparr>, \<lparr>fval = 0, frepr = ''0.0''\<rparr>],
      cpu_freq = Inr None,
      cpu_count_physical = Inr (Some 1),
      cpu_count_logical = Inr (Some 2),
      virtual_memory =
        Inr \<lparr>vm_total = 8589934592, vm_available = 4294967296,
             vm_percent = \<lparr>fval = 50, frepr = ''50.0''\<rparr>\<rparr>,
      swap_memory = Inr \<lparr>sw_total = 0, sw_used = 0\<rparr>,
      process_iter =
        Inr [\<lparr>pid = 1, name = Some ''init'', memory_percent = None\<rparr>,
             \<lparr>pid = 7, name = Some ''sshd'', memory_percent = Some \<lparr>fval = 1 / 2, frepr = ''0.5''\<rparr>\<rparr>],
      net_io_counters =
        Inr \<lparr>bytes_sent = 1048576, bytes_recv = 2097152, packets_sent = 10, packets_recv = 20\<rparr>,
      disk_partitions = Inr [''/'', ''/mnt/usb''],
      disk_usage =
        (\<lambda>m. if m = ''/''
              then Inr \<lparr>du_total = 2147483648, du_used = 1073741824, du_free = 1073741824,
                        du_percent = \<lparr>fval = 50, frepr = ''50.0''\<rparr>\<rparr>
              else Inl (OSError ''[Errno 13] Permission denied'')),
      getcwd = ''/srv'',
      os_listdir =
        (\<lambda>p. if p = ''/srv/shared'' then Inr [''notes.txt'']
              else if p = ''/srv/shared_backup'' then Inr [''secret.txt'']
              else Inl (OSError ''[Errno 2] No such file or directory''))\<rparr>"

definition denied_host :: provider where
  "denied_host = quiet_host\<lparr>cpu_percent := Inl (AccessDenied ''psutil.AccessDenied'')\<rparr>"

definition uncounted_host :: provider where
  "uncounted_host = quiet_host\<lparr>cpu_count_physical := Inr None\<rparr>"

definition scan_denied_host :: provider where
  "scan_denied_host = quiet_host\<lparr>process_iter := Inl (AccessDenied ''psutil.AccessDenied'')\<rparr>"

definition fresh_server :: server where
  "fresh_server = accepted (init ''127.0.0.1'' 65432)"

text \<open>The text of a response, empty when the handler raised.\<close>

definition response_text :: "(exn + string) \<times> server \<Rightarrow> string" where
  "response_text r = (case fst r of Inl e \<Rightarrow> [] | Inr t \<Rightarrow> t)"

definition sample_processes :: json where
  "sample_processes =
     JArr [JObj [(''pid'', JInt 7), (''name'', JStr ''sshd''), (''memory_percent'', JFloat ''0.5'')],
           JObj [(''pid'', JInt 1), (''name'', JStr ''init''), (''memory_percent'', JNull)]]"

text \<open>
  The acceptance test in the words of the specification: a canonical path is accepted
  under a root when it is the root or lies below it.
\<close>

definition spec_within :: "string \<Rightarrow> string \<Rightarrow> bool" where
  "spec_within allowed p = (p = allowed \<or> startswith p (allowed @ ''/''))"

section \<open>Properties of dispatch\<close>

lemma map_of_commands_None:
  "k \<notin> {''sysinfo'', ''time'', ''echo'', ''exit'', ''cpu'', ''memory'', ''processes'',
          ''netstat'', ''listdir'', ''diskspace''} \<Longrightarrow> map_of commands k = None"
  by (simp add: commands_def)

lemma process_command_unknown:
  "map_of commands (keyword_of command) = None \<Longrightarrow>
   process_command pv st command = (Inr invalid_command, st)"
  by (simp add: process_command_def)

lemma client_emit [simp]: "client (emit e st) = client st"
  by (simp add: emit_def)

lemma allowed_dirs_emit [simp]: "allowed_dirs (emit e st) = allowed_dirs st"
  by (simp add: emit_def)

lemma events_emit [simp]: "events (emit e st) = events st @ [e]"
  by (simp add: emit_def)

lemma handle_client_reply:
  assumes "client st = Some Sock_open" and "d \<noteq> []"
    and "process_command pv st d = (Inr response, st)"
  shows "handle_client pv st (Data d # rest) = handle_client pv (emit (Sent response) st) rest"
  using assms by (simp add: handle_client.simps send_def)

lemma handle_client_raise:
  assumes "client st = Some Sock_open" and "d \<noteq> []"
    and "process_command pv st d = (Inl e, st')"
  shows "handle_client pv st (Data d # rest) = log_failure e st'"
  using assms by (simp add: handle_client.simps)

lemma handle_client_Nil:
  "client st = Some Sock_open \<Longrightarrow> handle_client pv st [] = st"
  by (simp add: handle_client.simps)

lemma strip_blank:
  assumes "\<forall>c\<in>set line. isspace c"
  shows "strip line = []"
proof -
  from assms have d: "dropWhile isspace line = []" by simp
  show ?thesis unfolding strip_def d by simp
qed

lemma keyword_of_blank: "\<forall>c\<in>set line. isspace c \<Longrightarrow> keyword_of line = []"
  by (simp add: keyword_of_def strip_blank lower_def split1_def)

lemma fresh_server_client: "client fresh_server = Some Sock_open"
  by (simp add: fresh_server_def accepted_def)

text \<open>
  C7. A line whose keyword, after stripping and lower-casing, is none of the ten
  registered ones is answered with the fixed invalid-command text: the dispatcher
  returns normally, leaves the server object as it was, and the session loop sends the
  text and goes on with the next read on a connection that is still open.
\<close>

theorem unknown_keyword_reply:
  assumes "keyword_of d \<notin> {''sysinfo'', ''time'', ''echo'', ''exit'', ''cpu'', ''memory'',
              ''processes'', ''netstat'', ''listdir'', ''diskspace''}"
    and "d \<noteq> []" and "client st = Some Sock_open"
  shows "process_command pv st d = (Inr invalid_command, st)
       \<and> handle_client pv st (Data d # rest)
           = handle_client pv (emit (Sent invalid_command) st) rest
       \<and> client (emit (Sent invalid_command) st) = Some Sock_open"
proof -
  have r: "process_command pv st d = (Inr invalid_command, st)"
    using assms(1) by (intro process_command_unknown map_of_commands_None)
  from handle_client_reply [OF assms(3) assms(2) r] r assms(3) show ?thesis by simp
qed

theorem unknown_keyword_reply_witness:
  "process_command quiet_host fresh_server ''Help me'' = (Inr invalid_command, fresh_server)
   \<and> handle_client quiet_host fresh_server [Data ''Help me'', Data ''frobnicate'']
       = emit (Sent invalid_command) (emit (Sent invalid_command) fresh_server)"
proof -
  have k1: "keyword_of ''Help me'' = ''help''" by code_simp
  have k2: "keyword_of ''frobnicate'' = ''frobnicate''" by code_simp
  have c: "client (emit (Sent invalid_command) fresh_server) = Some Sock_open"
    by (simp add: fresh_server_client)
  from unknown_keyword_reply [of "''Help me''" fresh_server quiet_host "[Data ''frobnicate'']"]
    unknown_keyword_reply [of "''frobnicate''" "emit (Sent invalid_command) fresh_server"
      quiet_host "[]"]
  show ?thesis
    by (simp add: k1 k2 fresh_server_client handle_client_Nil)
qed

text \<open>
  C10. A received line that is not empty and holds nothing but whitespace, or whose
  keyword is empty for another reason, is dispatched under the empty keyword, which is not
  registered: the dispatcher returns the invalid-command text without raising, and the
  session loop sends it and goes on with the next read.
\<close>

theorem blank_line_invalid:
  assumes "line \<noteq> []" and "(\<forall>c\<in>set line. isspace c) \<or> keyword_of line = []"
    and "client st = Some Sock_open"
  shows "keyword_of line = []
       \<and> process_command pv st line = (Inr invalid_command, st)
       \<and> handle_client pv st (Data line # rest)
           = handle_client pv (emit (Sent invalid_command) st) rest"
proof -
  have k: "keyword_of line = []" using assms(2) keyword_of_blank [of line] by blast
  have r: "process_command pv st line = (Inr invalid_command, st)"
    by (rule process_command_unknown) (simp add: k commands_def)
  from k r handle_client_reply [OF assms(3) assms(1) r] show ?thesis by simp
qed

theorem blank_line_invalid_witness:
  "keyword_of [CHR '' '', CHR 0x09, CHR '' ''] = []
   \<and> handle_client quiet_host fresh_server [Data [CHR '' '', CHR 0x09, CHR '' '']]
       = emit (Sent invalid_command) fresh_server"
proof -
  have s: "\<forall>c\<in>set [CHR '' '', CHR 0x09, CHR '' '']. isspace c"
    by (simp add: isspace_def)
  from blank_line_invalid [of "[CHR '' '', CHR 0x09, CHR '' '']" fresh_server quiet_host "[]"] s
  show ?thesis by (simp add: fresh_server_client handle_client_Nil)
qed

section \<open>The echo command\<close>

lemma process_command_echo:
  assumes "lower (strip line) = ''echo'' @ '' '' @ r"
  shows "process_command pv st line = (Inr (''Echo: '' @ r), st)"
  using assms
  by (simp add: process_command_def keyword_of_def args_of_def split1_def commands_def
      echo_message_def)

lemma process_command_echo_empty:
  assumes "lower (strip line) = ''echo''"
  shows "process_command pv st line = (Inr ''Echo: '', st)"
  using assms
  by (simp add: process_command_def keyword_of_def args_of_def split1_def commands_def
      echo_message_def)

lemma lower_space: "lower '' '' = '' ''"
  by (simp add: lower_def lower_char_def)

text \<open>
  C4, as the code has it. The line is stripped of surrounding whitespace first. If what
  is left is the keyword \<open>echo\<close> (in any letter case), one space character and a
  remainder \<open>r\<close>, the response is \<open>Echo: \<close> followed by \<open>r\<close>: the remainder starts right
  after that one space, so further spaces of a longer run stay in it. If what is left is
  the keyword alone, the response is exactly \<open>Echo: \<close>. The server object is unchanged.
  The statement is about remainders without upper-case letters.
\<close>

theorem echo_reply:
  "(strip line = kw @ '' '' @ r \<and> lower kw = ''echo'' \<and> lower r = r
      \<longrightarrow> process_command pv st line = (Inr (''Echo: '' @ r), st))
   \<and> (lower (strip line) = ''echo''
      \<longrightarrow> process_command pv st line = (Inr ''Echo: '', st))"
proof (intro conjI impI)
  assume a: "strip line = kw @ '' '' @ r \<and> lower kw = ''echo'' \<and> lower r = r"
  then have "lower (strip line) = lower kw @ lower '' '' @ lower r"
    by (simp add: lower_def)
  with a have "lower (strip line) = ''echo'' @ '' '' @ r"
    by (simp only: lower_space)
  then show "process_command pv st line = (Inr (''Echo: '' @ r), st)"
    by (rule process_command_echo)
next
  assume "lower (strip line) = ''echo''"
  then show "process_command pv st line = (Inr ''Echo: '', st)"
    by (rule process_command_echo_empty)
qed

theorem echo_reply_witness:
  "process_command quiet_host fresh_server ''  ECHO hi  there '' = (Inr ''Echo: hi  there'', fresh_server)
   \<and> process_command quiet_host fresh_server ''Echo '' = (Inr ''Echo: '', fresh_server)"
proof -
  have s: "strip ''  ECHO hi  there '' = ''ECHO'' @ '' '' @ ''hi  there''" by code_simp
  have k: "lower ''ECHO'' = ''echo''" by code_simp
  have r: "lower ''hi  there'' = ''hi  there''" by code_simp
  have e: "lower (strip ''Echo '') = ''echo''" by code_simp
  from echo_reply [of "''  ECHO hi  there ''" "''ECHO''" "''hi  there''" quiet_host fresh_server]
    echo_reply [of "''Echo ''" "[]" "[]" quiet_host fresh_server] s k r e
  show ?thesis by simp
qed

text \<open>
  The claim as the specification words it fails twice: the remainder after a run of two
  spaces keeps the second space, and the letter case of the argument is not kept.
\<close>

theorem echo_not_verbatim:
  "fst (process_command quiet_host fresh_server ''echo  hi'') = Inr ''Echo:  hi''
   \<and> fst (process_command quiet_host fresh_server ''echo  hi'') \<noteq> Inr (''Echo: '' @ ''hi'')
   \<and> fst (process_command quiet_host fresh_server ''echo Hello'') = Inr ''Echo: hello''
   \<and> fst (process_command quiet_host fresh_server ''echo Hello'') \<noteq> Inr (''Echo: '' @ ''Hello'')"
  by code_simp

section \<open>The allow-list\<close>

lemma allowed_dirs_cleanup [simp]: "allowed_dirs (cleanup st) = allowed_dirs st"
  by (simp add: cleanup_def Let_def split: option.splits)

lemma allowed_dirs_log_failure [simp]: "allowed_dirs (log_failure e st) = allowed_dirs st"
  by (simp add: log_failure_def)

lemma handler_cases:
  assumes "map_of commands k = Some h"
  shows "h = get_system_info \<or> h = get_time \<or> h = echo_message \<or> h = exit_connection
       \<or> h = get_cpu_info \<or> h = get_memory_info \<or> h = get_running_processes
       \<or> h = get_network_stats \<or> h = list_directory \<or> h = get_disk_space"
  using assms by (auto simp: commands_def split: if_splits)

lemma handlers_keep_allowed_dirs:
  "allowed_dirs (snd (get_system_info pv st a)) = allowed_dirs st"
  "allowed_dirs (snd (get_time pv st a)) = allowed_dirs st"
  "allowed_dirs (snd (echo_message pv st a)) = allowed_dirs st"
  "allowed_dirs (snd (exit_connection pv st a)) = allowed_dirs st"
  "allowed_dirs (snd (get_cpu_info pv st a)) = allowed_dirs st"
  "allowed_dirs (snd (get_memory_info pv st a)) = allowed_dirs st"
  "allowed_dirs (snd (get_running_processes pv st a)) = allowed_dirs st"
  "allowed_dirs (snd (get_network_stats pv st a)) = allowed_dirs st"
  "allowed_dirs (snd (list_directory pv st a)) = allowed_dirs st"
  "allowed_dirs (snd (get_disk_space pv st a)) = allowed_dirs st"
  by (simp_all add: get_system_info_def get_time_def echo_message_def exit_connection_def
      get_cpu_info_def get_memory_info_def get_running_processes_def get_network_stats_def
      list_directory_def get_disk_space_def Let_def split: sum.splits)

lemma process_command_allowed_dirs:
  "allowed_dirs (snd (process_command pv st c)) = allowed_dirs st"
proof (cases "map_of commands (keyword_of c)")
  case None
  then show ?thesis by (simp add: process_command_def)
next
  case (Some h)
  from handler_cases [OF Some] show ?thesis
    by (auto simp: process_command_def Some handlers_keep_allowed_dirs)
qed

lemma handle_client_allowed_dirs:
  "allowed_dirs (handle_client pv st inputs) = allowed_dirs st"
proof (induction inputs arbitrary: st)
  case Nil
  show ?case by (simp add: handle_client.simps)
next
  case (Cons r rs)
  show ?case
  proof (cases "process_command pv st (case r of Data d \<Rightarrow> d | _ \<Rightarrow> [])")
    case (Pair res st')
    have st': "\<And>d. r = Data d \<Longrightarrow> allowed_dirs st' = allowed_dirs st"
      using Pair process_command_allowed_dirs [of pv st] by (metis recv_result.simps(8) snd_conv)
    show ?thesis
      using Pair st' Cons.IH
      by (auto simp: handle_client.simps send_def
          split: recv_result.splits sum.splits option.splits sock.splits)
  qed
qed

lemma allowed_dirs_init: "allowed_dirs (init h p) = [''./shared'', ''./downloads'']"
  by (simp add: init_def setup_directories_def)

text \<open>
  C9, as the code has it. The constructor sets the allow-list to the two relative paths
  \<open>./shared\<close> and \<open>./downloads\<close>, in this order, and nothing changes it afterwards:
  not the dispatch of any command line, not the session loop on any sequence of
  reads, not the whole run of the server from the accepted connection to the final
  cleanup.
\<close>

theorem allow_list_fixed:
  "allowed_dirs (init h p) = [''./shared'', ''./downloads'']
   \<and> allowed_dirs (snd (process_command pv st command)) = allowed_dirs st
   \<and> allowed_dirs (handle_client pv st inputs) = allowed_dirs st
   \<and> allowed_dirs (start_server pv st inputs) = allowed_dirs st"
  by (simp add: allowed_dirs_init process_command_allowed_dirs handle_client_allowed_dirs
      start_server_def accepted_def)

theorem allow_list_fixed_witness:
  "allowed_dirs (start_server quiet_host (init ''127.0.0.1'' 65432)
      [Data ''listdir shared'', Data ''exit'']) = [''./shared'', ''./downloads'']"
  using allow_list_fixed [of "''127.0.0.1''" 65432 quiet_host "init ''127.0.0.1'' 65432"
      "[]" "[Data ''listdir shared'', Data ''exit'']"]
  by simp

text \<open>
  The entries are not absolute paths and not canonical: \<open>abspath\<close> maps the first one
  to a different text.
\<close>

theorem allow_list_relative:
  "allowed_dirs (init ''127.0.0.1'' 65432) = [''./shared'', ''./downloads'']
   \<and> \<not> isabs ''./shared'' \<and> \<not> isabs ''./downloads''
   \<and> abspath ''/srv'' ''./shared'' = ''/srv/shared''
   \<and> abspath ''/srv'' ''./shared'' \<noteq> ''./shared''"
  by code_simp

section \<open>The exit command\<close>

lemma client_cleanup: "client s = Some x \<Longrightarrow> client (cleanup s) = Some Sock_closed"
  by (simp add: cleanup_def Let_def emit_def split: option.splits)

lemma process_command_exit:
  "process_command pv st ''exit'' = (Inr ''Server shutting down...'', cleanup st)"
proof -
  have k: "keyword_of ''exit'' = ''exit''" by code_simp
  have a: "args_of ''exit'' = []" by code_simp
  show ?thesis
    by (simp add: process_command_def k a commands_def exit_connection_def)
qed

text \<open>
  C2, on the code. When \<open>exit\<close> is received on an open connection, the handler closes
  both sockets before it returns the acknowledgment; the write that follows fails on the
  closed socket, the failure is logged and the loop ends. The trace of the session gains
  the two closes and two log lines and no write: the acknowledgment is never sent.
\<close>

theorem exit_closes_before_send:
  "handle_client pv (accepted st) (Data ''exit'' # rest)
     = log_failure (OSError ''[Errno 9] Bad file descriptor'') (cleanup (accepted st))
   \<and> events (handle_client pv (accepted st) (Data ''exit'' # rest))
     = events st @ [Client_closed, Socket_closed, Log_info ''Server cleaned up and shut down'',
         Log_error ''Error handling client: [Errno 9] Bad file descriptor'']"
proof -
  have c: "client (accepted st) = Some Sock_open" by (simp add: accepted_def)
  have h: "handle_client pv (accepted st) (Data ''exit'' # rest)
      = log_failure (OSError ''[Errno 9] Bad file descriptor'') (cleanup (accepted st))"
    by (simp add: handle_client.simps c process_command_exit send_def client_cleanup [OF c])
  show ?thesis unfolding h
    by (simp add: log_failure_def cleanup_def accepted_def Let_def emit_def)
qed

section \<open>Exceptions in handlers\<close>

lemma list_directory_returns: "\<exists>r. list_directory pv st path = (Inr r, st)"
  by (simp add: list_directory_def Let_def split: sum.splits)

lemma raising_command:
  assumes "process_command pv st d = (Inl e, st')"
  shows "keyword_of d \<in> {''cpu'', ''memory'', ''processes'', ''netstat'', ''diskspace''} \<and> st' = st"
proof (cases "map_of commands (keyword_of d)")
  case None
  with assms show ?thesis by (simp add: process_command_def)
next
  case (Some h)
  with assms have r: "h pv st (args_of d) = (Inl e, st')" by (simp add: process_command_def)
  from Some have "(keyword_of d, h) \<in> set commands" by (rule map_of_SomeD)
  then show ?thesis
    using r list_directory_returns [of pv st "args_of d"]
    by (auto simp: commands_def get_system_info_def get_time_def echo_message_def
        exit_connection_def get_cpu_info_def get_memory_info_def get_running_processes_def
        get_network_stats_def get_disk_space_def)
qed

lemma process_command_cpu_raises:
  assumes "cpu_percent pv = Inl e"
  shows "process_command pv st ''cpu'' = (Inl e, st)"
proof -
  have k: "keyword_of ''cpu'' = ''cpu''" by code_simp
  show ?thesis
    by (simp add: process_command_def k commands_def get_cpu_info_def cpu_info_def
        bind_res_def assms)
qed

lemma get_disk_space_returns:
  "disk_partitions pv = Inr ps \<Longrightarrow> \<exists>r. get_disk_space pv st args = (Inr r, st)"
  by (simp add: get_disk_space_def disk_info_of_def bind_res_def)

text \<open>
  C3, as the code has it. An exception that leaves a handler is caught by the session
  loop: the loop logs it, sends nothing and ends, whatever the peer sends afterwards;
  the server object is as before the command, and the command is one of \<open>cpu\<close>,
  \<open>memory\<close>, \<open>processes\<close>, \<open>netstat\<close>, \<open>diskspace\<close>. In particular \<open>cpu\<close> raises
  whenever the per-core reading raises. Two handlers contain failures themselves:
  \<open>listdir\<close> always returns a response, and \<open>diskspace\<close> returns a response whenever the
  partitions can be enumerated, skipping each mount point whose usage query raises.
\<close>

theorem handler_failure_containment:
  "(client st = Some Sock_open \<and> d \<noteq> [] \<and> process_command pv st d = (Inl e, st')
      \<longrightarrow> handle_client pv st (Data d # rest) = log_failure e st'
        \<and> events (log_failure e st') = events st @ [Log_error (''Error handling client: '' @ exn_str e)]
        \<and> keyword_of d \<in> {''cpu'', ''memory'', ''processes'', ''netstat'', ''diskspace''})
   \<and> (cpu_percent pv = Inl e \<longrightarrow> process_command pv st ''cpu'' = (Inl e, st))
   \<and> (\<exists>r. list_directory pv st path = (Inr r, st))
   \<and> (disk_partitions pv = Inr ps \<longrightarrow> (\<exists>r. get_disk_space pv st args = (Inr r, st)))
   \<and> (disk_usage pv m = Inl e \<longrightarrow> disk_loop pv (m # ms) acc = disk_loop pv ms acc)"
proof (intro conjI impI)
  assume a: "client st = Some Sock_open \<and> d \<noteq> [] \<and> process_command pv st d = (Inl e, st')"
  then show "handle_client pv st (Data d # rest) = log_failure e st'"
    by (simp add: handle_client_raise)
  from a raising_command [of pv st d e st']
  show "events (log_failure e st') = events st @ [Log_error (''Error handling client: '' @ exn_str e)]"
    by (simp add: log_failure_def)
  from a raising_command [of pv st d e st']
  show "keyword_of d \<in> {''cpu'', ''memory'', ''processes'', ''netstat'', ''diskspace''}"
    by simp
next
  assume "cpu_percent pv = Inl e"
  then show "process_command pv st ''cpu'' = (Inl e, st)" by (rule process_command_cpu_raises)
next
  show "\<exists>r. list_directory pv st path = (Inr r, st)" by (rule list_directory_returns)
next
  assume "disk_partitions pv = Inr ps"
  then show "\<exists>r. get_disk_space pv st args = (Inr r, st)" by (rule get_disk_space_returns)
next
  assume "disk_usage pv m = Inl e"
  then show "disk_loop pv (m # ms) acc = disk_loop pv ms acc" by simp
qed

theorem handler_failure_containment_witness:
  "handle_client denied_host fresh_server [Data ''cpu'', Data ''echo hi'']
     = log_failure (AccessDenied ''psutil.AccessDenied'') fresh_server
   \<and> disk_loop quiet_host [''/mnt/usb''] [] = []"
proof -
  have c: "cpu_percent denied_host = Inl (AccessDenied ''psutil.AccessDenied'')"
    by (simp add: denied_host_def)
  have u: "disk_usage quiet_host ''/mnt/usb'' = Inl (OSError ''[Errno 13] Permission denied'')"
    by (simp add: quiet_host_def)
  have p: "disk_partitions denied_host = Inr [''/'', ''/mnt/usb'']"
    by (simp add: denied_host_def quiet_host_def)
  from handler_failure_containment [of fresh_server "''cpu''" denied_host
      "AccessDenied ''psutil.AccessDenied''" fresh_server "[Data ''echo hi'']" "[]"
      "[''/'', ''/mnt/usb'']" "[]" "''/mnt/usb''" "[]" "[]"] c p
  have 1: "handle_client denied_host fresh_server [Data ''cpu'', Data ''echo hi'']
     = log_failure (AccessDenied ''psutil.AccessDenied'') fresh_server"
    by (simp add: fresh_server_client)
  from handler_failure_containment [of fresh_server "''cpu''" quiet_host
      "OSError ''[Errno 13] Permission denied''" fresh_server "[]" "[]"
      "[''/'', ''/mnt/usb'']" "[]" "''/mnt/usb''" "[]" "[]"] u
  have 2: "disk_loop quiet_host [''/mnt/usb''] [] = []" by simp
  from 1 2 show ?thesis by simp
qed

text \<open>
  On a host where the per-core reading is denied, \<open>cpu\<close> gets no response and the
  \<open>echo\<close> that follows is never read.
\<close>

theorem handler_failure_ends_session:
  "handle_client denied_host fresh_server [Data ''cpu'', Data ''echo hi'']
     = log_failure (AccessDenied ''psutil.AccessDenied'') fresh_server
   \<and> events (handle_client denied_host fresh_server [Data ''cpu'', Data ''echo hi''])
     = [Makedirs ''./shared'', Makedirs ''./downloads'',
        Log_error ''Error handling client: psutil.AccessDenied'']"
  by code_simp

section \<open>The path guard\<close>

text \<open>A request that climbs out of the working directory is refused.\<close>

lemma traversal_denied:
  "fst (process_command quiet_host fresh_server ''listdir ../../etc'') = Inr access_denied"
  by code_simp

text \<open>
  C1, on the code. With the working directory \<open>/srv\<close>, the request \<open>listdir shared_backup\<close>
  resolves to \<open>/srv/shared_backup\<close>, which is neither of the canonical roots
  \<open>/srv/shared\<close> and \<open>/srv/downloads\<close> nor below one of them; the handler compares
  texts, finds \<open>/srv/shared\<close> at the start of the request, and lists the directory.
\<close>

theorem listdir_sibling_prefix_listed:
  "fst (process_command quiet_host fresh_server ''listdir shared_backup'')
     = Inr (dumps (JObj [(''path'', JStr ''/srv/shared_backup''),
                         (''contents'', JArr [JStr ''secret.txt''])]))
   \<and> fst (process_command quiet_host fresh_server ''listdir shared_backup'') \<noteq> Inr access_denied
   \<and> abspath ''/srv'' (path_join ''.'' ''shared_backup'') = ''/srv/shared_backup''
   \<and> abspath ''/srv'' ''./shared'' = ''/srv/shared''
   \<and> abspath ''/srv'' ''./downloads'' = ''/srv/downloads''
   \<and> \<not> spec_within ''/srv/shared'' ''/srv/shared_backup''
   \<and> \<not> spec_within ''/srv/downloads'' ''/srv/shared_backup''"
  by code_simp


section \<open>The process list\<close>

lemma sorted_reverse_descending:
  "sorted_wrt (\<lambda>a b. key b \<le> key a) (sorted_reverse key xs)"
proof -
  have "sorted (map key (sort_key key (rev xs)))" by (rule sorted_sort_key)
  then have "sorted_wrt (\<lambda>a b. key a \<le> key b) (sort_key key (rev xs))"
    by (simp add: sorted_map)
  then show ?thesis
    by (simp add: sorted_reverse_def sorted_wrt_rev)
qed

lemma sorted_reverse_stable:
  "filter (\<lambda>p. key p = k) (sorted_reverse key xs) = filter (\<lambda>p. key p = k) xs"
proof -
  have "filter (\<lambda>p. key p = k) (sorted_reverse key xs)
      = rev (filter (\<lambda>p. key p = k) (sort_key key (rev xs)))"
    by (simp add: sorted_reverse_def rev_filter)
  also have "\<dots> = rev (filter (\<lambda>p. key p = k) (rev xs))"
    by (simp only: sort_key_stable)
  also have "\<dots> = filter (\<lambda>p. key p = k) xs"
    by (simp add: rev_filter)
  finally show ?thesis .
qed

lemma mset_sorted_reverse: "mset (sorted_reverse key xs) = mset xs"
  by (simp add: sorted_reverse_def)

lemma top_dominates:
  assumes "p \<in> set (take n (sorted_reverse key xs))"
    and "q \<in> set (drop n (sorted_reverse key xs))"
  shows "key q \<le> key p"
proof -
  let ?s = "sorted_reverse key xs"
  have "sorted_wrt (\<lambda>a b. key b \<le> key a) (take n ?s @ drop n ?s)"
    using sorted_reverse_descending [of key xs] by simp
  with assms show ?thesis
    unfolding sorted_wrt_append by blast
qed

lemma keys_of_info_json: "keys_of (info_json p) = [''pid'', ''name'', ''memory_percent'']"
  by (simp add: keys_of_def info_json_def)

text \<open>
  What holds of the selection for every state of the provider: at most ten entries, in
  descending order of the key, equal keys in iteration order, the selected entries ahead
  of all others, and the three keys in every entry.
\<close>

lemma processes_selection:
  "length (top_processes procs) \<le> 10"
  "sorted_wrt (\<lambda>a b. memory_key b \<le> memory_key a) (top_processes procs)"
  "filter (\<lambda>p. memory_key p = k) (sorted_reverse memory_key procs)
     = filter (\<lambda>p. memory_key p = k) procs"
  "mset (top_processes procs) + mset (drop 10 (sorted_reverse memory_key procs)) = mset procs"
  "p \<in> set (top_processes procs) \<Longrightarrow> q \<in> set (drop 10 (sorted_reverse memory_key procs))
     \<Longrightarrow> memory_key q \<le> memory_key p"
  "list_all (\<lambda>v. keys_of v = [''pid'', ''name'', ''memory_percent''])
     (map info_json (top_processes procs))"
proof -
  show "length (top_processes procs) \<le> 10" by (simp add: top_processes_def)
  show "sorted_wrt (\<lambda>a b. memory_key b \<le> memory_key a) (top_processes procs)"
    unfolding top_processes_def
    using sorted_reverse_descending [of memory_key procs] by (rule sorted_wrt_take)
  show "filter (\<lambda>p. memory_key p = k) (sorted_reverse memory_key procs)
     = filter (\<lambda>p. memory_key p = k) procs"
    by (rule sorted_reverse_stable)
  have "mset (take 10 (sorted_reverse memory_key procs)) + mset (drop 10 (sorted_reverse memory_key procs))
      = mset (take 10 (sorted_reverse memory_key procs) @ drop 10 (sorted_reverse memory_key procs))"
    by (simp only: mset_append)
  also have "\<dots> = mset procs"
    by (simp only: append_take_drop_id mset_sorted_reverse)
  finally show "mset (top_processes procs) + mset (drop 10 (sorted_reverse memory_key procs)) = mset procs"
    by (simp only: top_processes_def)
  show "p \<in> set (top_processes procs) \<Longrightarrow> q \<in> set (drop 10 (sorted_reverse memory_key procs))
     \<Longrightarrow> memory_key q \<le> memory_key p"
    unfolding top_processes_def by (rule top_dominates)
  show "list_all (\<lambda>v. keys_of v = [''pid'', ''name'', ''memory_percent''])
     (map info_json (top_processes procs))"
    by (simp add: list_all_iff keys_of_info_json)
qed

text \<open>
  C5, on the code. On a host whose scan yields process 1 with no memory figure
  (access denied) and process 7 with 0.5 percent, the response lists both: the
  inaccessible process is not skipped, it is ranked with key 0 and encoded with
  \<open>null\<close>. On a host whose scan itself raises, the exception leaves the handler, since
  the scan and the sort are outside the \<open>try\<close>, and the session ends without a response.
\<close>

theorem inaccessible_process_listed:
  "processes_info quiet_host = Inr sample_processes
   \<and> fst (process_command quiet_host fresh_server ''processes'') = Inr (dumps sample_processes)
   \<and> loads (dumps sample_processes) = Some sample_processes
   \<and> fst (process_command scan_denied_host fresh_server ''processes'')
       = Inl (AccessDenied ''psutil.AccessDenied'')
   \<and> handle_client scan_denied_host fresh_server [Data ''processes'', Data ''time'']
       = log_failure (AccessDenied ''psutil.AccessDenied'') fresh_server"
  by code_simp

section \<open>The renderer\<close>

lemma loads_sample_processes: "loads (dumps sample_processes) = Some sample_processes"
  by code_simp

lemma format_response_undecodable:
  "loads response = None \<Longrightarrow>
   format_response lib command response = ([newline # ''Server response:'', response], None)"
  by (simp add: format_response_def)

lemma map_res_total:
  "(\<And>x. x \<in> set xs \<Longrightarrow> f x = Inr (g x)) \<Longrightarrow> map_res f xs = Inr (map g xs)"
  by (induction xs) simp_all

text \<open>
  The branches of the renderer on data of the expected shape: a table of the three
  columns with the figure followed by a percent sign, and a header with one indented
  line for each entry.
\<close>

lemma format_response_processes:
  assumes "loads response = Some (JArr ps)"
    and "\<And>p. p \<in> set ps \<Longrightarrow> process_row lib p = Inr (row p)"
  shows "format_response lib ''processes'' response
       = ([newline # ''Server response:'', tabulate lib (map row ps) [''PID'', ''Name'', ''Memory %'']], None)"
  using map_res_total [of ps "process_row lib" row] assms
  by (simp add: format_response_def py_iter_def bind_res_def table_headers_def)

lemma process_row_figures:
  "process_row lib (JObj [(''pid'', JInt i), (''name'', JStr n), (''memory_percent'', JFloat t)])
     = Inr [JInt i, JStr n, JStr (format_1f lib t @ ''%'')]"
  by (simp add: process_row_def py_getitem_def py_get_def fmt_1f_def bind_res_def)

lemma format_response_listing:
  assumes "loads response = Some (JObj [(''path'', JStr p), (''contents'', JArr (map JStr items))])"
  shows "format_response lib ''listdir'' response
       = ([newline # ''Server response:'', newline # ''Contents of '' @ p @ '':'']
            @ map (\<lambda>item. ''  '' @ item) items, None)"
  using assms
  by (simp add: format_response_def py_getitem_def py_iter_def py_str_def bind_res_def Let_def
      comp_def)

text \<open>
  C8, on the code. The server's own response to \<open>processes\<close> on that host decodes, and
  the renderer then formats the \<open>null\<close> memory figure with \<open>.1f\<close>: a \<open>TypeError\<close> leaves
  \<open>format_response\<close>, which catches the decode error only, after the banner alone was
  printed, and it leaves the client's loop too. This holds for every table layout and
  float rounding.
\<close>

theorem renderer_raises_on_null_memory:
  "fst (process_command quiet_host fresh_server ''processes'') = Inr (dumps sample_processes)
   \<and> format_response lib ''processes'' (dumps sample_processes)
       = ([newline # ''Server response:''],
          Some (TypeError ''unsupported format string passed to NoneType.__format__''))
   \<and> client_turn lib ''processes'' (Some (dumps sample_processes))
       = ([newline # ''Server response:''],
          Propagates (TypeError ''unsupported format string passed to NoneType.__format__''))"
proof -
  have p: "fst (process_command quiet_host fresh_server ''processes'') = Inr (dumps sample_processes)"
    by code_simp
  have f: "format_response lib ''processes'' (dumps sample_processes)
       = ([newline # ''Server response:''],
          Some (TypeError ''unsupported format string passed to NoneType.__format__''))"
    unfolding format_response_def loads_sample_processes
    by (simp add: sample_processes_def py_iter_def process_row_def py_getitem_def py_get_def
        fmt_1f_def bind_res_def type_name_def)
  have s: "strip ''processes'' = ''processes''" by code_simp
  have l: "lower ''processes'' \<noteq> ''exit''" by code_simp
  have d: "dumps sample_processes \<noteq> []" by code_simp
  have c: "client_turn lib ''processes'' (Some (dumps sample_processes))
       = ([newline # ''Server response:''],
          Propagates (TypeError ''unsupported format string passed to NoneType.__format__''))"
    unfolding client_turn_def s by (simp add: Let_def f d l)
  from p f c show ?thesis by simp
qed

section \<open>The key schemas\<close>

text \<open>
  The decoded response of \<open>cpu\<close> has the key \<open>cpu_count\<close>, not \<open>cpu_count_physical\<close>;
  and where the number of physical cores is not known, its value is \<open>null\<close>.
\<close>

theorem cpu_keys_differ:
  "map_option keys_of (loads (response_text (get_cpu_info quiet_host fresh_server [])))
     = Some [''cpu_percent'', ''cpu_freq'', ''cpu_count'', ''cpu_count_logical'']
   \<and> ''cpu_count_physical'' \<notin> set [''cpu_percent'', ''cpu_freq'', ''cpu_count'', ''cpu_count_logical'']
   \<and> loads (response_text (get_cpu_info uncounted_host fresh_server []))
     = Some (JObj [(''cpu_percent'', JArr [JFloat ''12.5'', JFloat ''0.0'']),
                   (''cpu_freq'', JObj []),
                   (''cpu_count'', JNull),
                   (''cpu_count_logical'', JInt 2)])"
  by code_simp

section \<open>Decoding what the encoder wrote\<close>

lemma char_eq_code: "(of_char c :: nat) = of_char d \<Longrightarrow> c = d"
  by simp

lemma hex_val_hex_char: "d < 16 \<Longrightarrow> hex_val (hex_char d) = Some d"
  by (simp add: hex_val_def hex_char_def Let_def)

lemma hex4_escape:
  "hex4 CHR ''0'' CHR ''0'' (hex_char ((of_char c :: nat) div 16)) (hex_char (of_char c mod 16))
     = Some (of_char c)"
proof -
  have d: "(of_char c :: nat) div 16 < 16"
    using nat_of_char_less_256 [of c] by arith
  have z: "hex_val CHR ''0'' = Some 0" by (simp add: hex_val_def)
  show ?thesis
    by (simp add: hex4_def z hex_val_hex_char d)
qed

lemma scan_string_escape:
  "scan_string (escape_char c @ tail) = cons_text c (scan_string tail)"
proof -
  let ?n = "of_char c :: nat"
  consider (bs) "c = backslash" | (dq) "c = dquote"
    | (b) "?n = 8" | (f) "?n = 12" | (n) "?n = 10" | (r) "?n = 13" | (t) "?n = 9"
    | (u) "c \<noteq> backslash" "c \<noteq> dquote" "?n \<noteq> 8" "?n \<noteq> 12" "?n \<noteq> 10" "?n \<noteq> 13" "?n \<noteq> 9"
          "?n < 32 \<or> 126 < ?n"
    | (p) "c \<noteq> backslash" "c \<noteq> dquote" "\<not> ?n < 32" "\<not> 126 < ?n"
    by blast
  then show ?thesis
  proof cases
    case bs
    then show ?thesis by (simp add: escape_char_def unescape_def)
  next
    case dq
    then show ?thesis by (simp add: escape_char_def unescape_def)
  next
    case b
    then have "c = CHR 0x08" by (intro char_eq_code) simp
    then show ?thesis by (simp add: escape_char_def unescape_def)
  next
    case f
    then have "c = CHR 0x0C" by (intro char_eq_code) simp
    then show ?thesis by (simp add: escape_char_def unescape_def)
  next
    case n
    then have "c = CHR 0x0A" by (intro char_eq_code) simp
    then show ?thesis by (simp add: escape_char_def unescape_def)
  next
    case r
    then have "c = CHR 0x0D" by (intro char_eq_code) simp
    then show ?thesis by (simp add: escape_char_def unescape_def)
  next
    case t
    then have "c = CHR 0x09" by (intro char_eq_code) simp
    then show ?thesis by (simp add: escape_char_def unescape_def)
  next
    case u
    have e: "escape_char c = [backslash, CHR ''u'', CHR ''0'', CHR ''0'',
        hex_char (?n div 16), hex_char (?n mod 16)]"
      using u by (simp add: escape_char_def Let_def)
    show ?thesis
      unfolding e by (simp add: hex4_escape)
  next
    case p
    have e: "escape_char c = [c]"
      using p by (auto simp: escape_char_def Let_def)
    show ?thesis
      unfolding e using p by simp
  qed
qed

lemma scan_string_encoded:
  "scan_string (concat (map escape_char s) @ dquote # rest) = Some (s, rest)"
  by (induction s) (simp_all add: scan_string_escape cons_text_def)

lemma of_char_digit_char: "d < 10 \<Longrightarrow> (of_char (digit_char d) :: nat) = 48 + d"
  by (simp add: digit_char_def)

lemma is_digit_digit_char: "d < 10 \<Longrightarrow> is_digit (digit_char d)"
  by (simp add: is_digit_def of_char_digit_char)

lemma digit_char_zero_iff: "d < 10 \<Longrightarrow> digit_char d = CHR ''0'' \<longleftrightarrow> d = 0"
proof -
  assume d: "d < 10"
  have "digit_char d = CHR ''0'' \<longleftrightarrow> (of_char (digit_char d) :: nat) = of_char CHR ''0''"
    by (simp only: of_char_eq_iff)
  also have "\<dots> \<longleftrightarrow> d = 0" using d by (simp add: of_char_digit_char)
  finally show ?thesis .
qed

lemma show_nat_digits: "list_all is_digit (show_nat n)"
proof (induction n rule: show_nat.induct)
  case (1 n)
  show ?case
  proof (cases "n < 10")
    case True
    then show ?thesis by (subst show_nat.simps) (simp add: is_digit_digit_char)
  next
    case False
    with 1 show ?thesis by (subst show_nat.simps) (simp add: is_digit_digit_char)
  qed
qed

lemma show_nat_nonempty: "show_nat n \<noteq> []"
  by (subst show_nat.simps) simp

lemma digits_val_snoc: "digits_val (ds @ [c]) = 10 * digits_val ds + (of_char c - 48)"
  by (simp add: digits_val_def)

lemma digits_val_show_nat: "digits_val (show_nat n) = n"
proof (induction n rule: show_nat.induct)
  case (1 n)
  show ?case
  proof (cases "n < 10")
    case True
    then show ?thesis
      by (subst show_nat.simps) (simp add: digits_val_def of_char_digit_char)
  next
    case False
    with 1 show ?thesis
      by (subst show_nat.simps) (simp add: digits_val_snoc of_char_digit_char)
  qed
qed

lemma show_nat_leading: "hd (show_nat n) = CHR ''0'' \<Longrightarrow> n = 0"
proof (induction n rule: show_nat.induct)
  case (1 n)
  show ?case
  proof (cases "n < 10")
    case True
    with 1(2) show ?thesis
      by (subst (asm) show_nat.simps) (simp add: digit_char_zero_iff)
  next
    case False
    with 1(2) have "hd (show_nat (n div 10)) = CHR ''0''"
      by (subst (asm) show_nat.simps) (simp add: show_nat_nonempty)
    with 1(1) False have "n div 10 = 0" by simp
    with False show ?thesis by simp
  qed
qed

lemma show_nat_zero: "show_nat 0 = ''0''"
proof -
  have "digit_char 0 = CHR ''0''" by (simp add: digit_char_zero_iff)
  then show ?thesis by (subst show_nat.simps) simp
qed

lemma int_part_ok_show_nat: "int_part_ok (show_nat n)"
  using show_nat_leading [of n]
  by (auto simp: int_part_ok_def show_nat_digits show_nat_nonempty show_nat_zero)

lemma is_digit_not_minus: "is_digit c \<Longrightarrow> c \<noteq> CHR ''-''"
  by (auto simp: is_digit_def)

lemma takeWhile_all: "list_all P xs \<Longrightarrow> takeWhile P xs = xs"
  by (induction xs) auto

lemma dropWhile_all: "list_all P xs \<Longrightarrow> dropWhile P xs = []"
  by (induction xs) auto

lemma number_token_show_nat: "number_token (show_nat n) = Some (JInt (int n))"
proof -
  obtain c cs where s: "show_nat n = c # cs"
    using show_nat_nonempty [of n] by (cases "show_nat n") auto
  have d: "list_all is_digit (c # cs)" using show_nat_digits [of n] s by simp
  then have c: "c \<noteq> CHR ''-''" by (simp add: is_digit_not_minus)
  have ok: "int_part_ok (c # cs)" using int_part_ok_show_nat [of n] s by simp
  have v: "digits_val (c # cs) = n" using digits_val_show_nat [of n] s by simp
  show ?thesis
    unfolding s number_token_def
    using c ok v
    by (simp add: takeWhile_all [OF d] dropWhile_all [OF d] frac_ok_def exp_ok_def Let_def
        del: takeWhile.simps dropWhile.simps)
qed

lemma number_token_show_nat_neg:
  "number_token (CHR ''-'' # show_nat n) = Some (JInt (- int n))"
proof -
  have d: "list_all is_digit (show_nat n)" by (rule show_nat_digits)
  show ?thesis
    unfolding number_token_def
    by (simp add: takeWhile_all [OF d] dropWhile_all [OF d] frac_ok_def exp_ok_def Let_def
        int_part_ok_show_nat digits_val_show_nat)
qed

lemma number_token_show_int: "number_token (show_int i) = Some (JInt i)"
  by (simp add: show_int_def number_token_show_nat number_token_show_nat_neg)

lemma is_digit_numchar: "is_digit c \<Longrightarrow> is_numchar c"
  by (simp add: is_numchar_def)

lemma numchars_show_int: "list_all is_numchar (show_int i)"
proof -
  have "\<And>n. list_all is_numchar (show_nat n)"
    using show_nat_digits by (auto simp: list_all_iff is_digit_numchar)
  then show ?thesis by (simp add: show_int_def is_numchar_def)
qed

lemma takeWhile_token:
  "list_all P tok \<Longrightarrow> (case rest of [] \<Rightarrow> True | c # cs \<Rightarrow> \<not> P c) \<Longrightarrow>
   takeWhile P (tok @ rest) = tok \<and> dropWhile P (tok @ rest) = rest"
  by (induction tok) (auto split: list.splits)

lemma scan_number_token:
  assumes "list_all is_numchar tok" and "number_token tok = Some v" and "safe_rest rest"
  shows "scan_number (tok @ rest) = Some (v, rest)"
  using takeWhile_token [of is_numchar tok rest] assms
  by (simp add: scan_number_def safe_rest_def)

lemma dropWhile_replicate_append: "P c \<Longrightarrow> dropWhile P (replicate k c @ s) = dropWhile P s"
  by (induction k) auto

lemma skip_ws_newline_indent: "skip_ws (newline_indent l @ s) = skip_ws s"
  by (simp add: skip_ws_def newline_indent_def dropWhile_replicate_append is_ws_def)

lemma skip_ws_starts_value: "starts_value s \<Longrightarrow> skip_ws s = s"
  by (cases s) (simp_all add: starts_value_def skip_ws_def)

lemma starts_value_append: "starts_value s \<Longrightarrow> starts_value (s @ t)"
  by (cases s) (simp_all add: starts_value_def)

lemma numchar_facts:
  assumes "is_numchar c"
  shows "\<not> is_ws c" "c \<noteq> CHR '']''" "c \<noteq> CHR ''}''" "c \<noteq> dquote" "c \<noteq> CHR ''{''" "c \<noteq> CHR ''[''"
    "c \<noteq> CHR ''n''" "c \<noteq> CHR ''t''" "c \<noteq> CHR ''f''" "c \<noteq> CHR ''N''" "c \<noteq> CHR ''I''"
  using assms by (auto simp: is_numchar_def is_digit_def is_ws_def)

lemma number_token_Nil: "number_token [] = None"
  by (simp add: number_token_def int_part_ok_def)

lemma number_token_minus: "number_token ''-'' = None"
  by (simp add: number_token_def int_part_ok_def)

lemma scan_once_number:
  assumes "list_all is_numchar tok" and "number_token tok = Some v" and "safe_rest rest"
  shows "scan_once (Suc n) (tok @ rest) = Some (v, rest)"
proof -
  from assms(2) obtain c cs where tok: "tok = c # cs"
    by (cases tok) (auto simp: number_token_Nil)
  from assms(1) tok have c: "is_numchar c" by simp
  have inf: "\<not> startswith ((c # cs) @ rest) ''-Infinity''"
  proof (cases cs)
    case Nil
    with assms(2) tok have "c \<noteq> CHR ''-''" by (auto simp: number_token_minus)
    then show ?thesis by simp
  next
    case (Cons d ds)
    with assms(1) tok have "is_numchar d" by simp
    then have "d \<noteq> CHR ''I''" by (rule numchar_facts)
    with Cons show ?thesis by simp
  qed
  have "scan_once (Suc n) ((c # cs) @ rest) = scan_number ((c # cs) @ rest)"
    using numchar_facts [OF c] inf by auto
  with scan_number_token [OF assms] tok show ?thesis by simp
qed

lemma numchars_start: "list_all is_numchar s \<Longrightarrow> s \<noteq> [] \<Longrightarrow> starts_value s"
  by (cases s) (simp_all add: starts_value_def numchar_facts)

lemma show_int_nonempty: "show_int i \<noteq> []"
  by (simp add: show_int_def show_nat_nonempty)

lemma float_text_numeric: "list_all is_numchar t \<Longrightarrow> float_text t = t"
  by (auto simp: float_text_def is_numchar_def is_digit_def)

lemma starts_value_float: "float_repr_ok t \<Longrightarrow> starts_value (float_text t)"
proof -
  assume "float_repr_ok t"
  then consider "t = ''nan''" | "t = ''inf''" | "t = ''-inf''"
    | "list_all is_numchar t" "number_token t = Some (JFloat t)"
    by (auto simp: float_repr_ok_def)
  then show ?thesis
  proof cases
    case 4
    then have "t \<noteq> []" by (auto simp: number_token_Nil)
    with 4 show ?thesis by (simp add: float_text_numeric numchars_start)
  qed (simp_all add: float_text_def starts_value_def is_ws_def)
qed

lemma starts_value_dumps: "wf_json v \<Longrightarrow> starts_value (dumps_at l v)"
proof (cases v)
  case (JInt i)
  then show ?thesis by (simp add: numchars_start numchars_show_int show_int_nonempty)
next
  case (JFloat t)
  assume "wf_json v"
  with JFloat show ?thesis by (simp add: starts_value_float)
qed (simp_all add: starts_value_def is_ws_def encode_str_def)

lemma safe_rest_simps:
  "safe_rest []" "safe_rest (newline_indent l @ s)" "safe_rest (CHR '','' # s)"
  by (simp_all add: safe_rest_def newline_indent_def is_numchar_def is_digit_def)

lemma scan_once_float:
  assumes "float_repr_ok t" and "safe_rest rest"
  shows "scan_once (Suc n) (float_text t @ rest) = Some (JFloat t, rest)"
proof -
  from assms(1) consider "t = ''nan''" | "t = ''inf''" | "t = ''-inf''"
    | "list_all is_numchar t" "number_token t = Some (JFloat t)"
    by (auto simp: float_repr_ok_def)
  then show ?thesis
  proof cases
    case 4
    then show ?thesis
      by (simp only: float_text_numeric scan_once_number [OF 4 assms(2)])
  qed (simp_all add: float_text_def)
qed

lemma scan_once_scalar:
  "scan_once (Suc n) (''null'' @ rest) = Some (JNull, rest)"
  "scan_once (Suc n) (''true'' @ rest) = Some (JBool True, rest)"
  "scan_once (Suc n) (''false'' @ rest) = Some (JBool False, rest)"
  by simp_all

lemma scan_once_str:
  "scan_once (Suc n) (encode_str s @ rest) = Some (JStr s, rest)"
  by (simp add: encode_str_def scan_string_encoded)

lemma dict_set_fresh: "k \<notin> fst ` set d \<Longrightarrow> dict_set k v d = d @ [(k, v)]"
  by (induction d) auto

lemma skip_ws_nonws: "\<not> is_ws c \<Longrightarrow> skip_ws (c # s) = c # s"
  by (simp add: skip_ws_def)

lemma skip_ws_close:
  "skip_ws (newline_indent l @ CHR '']'' # s) = CHR '']'' # s"
  "skip_ws (newline_indent l @ CHR ''}'' # s) = CHR ''}'' # s"
  "skip_ws (CHR '','' # s) = CHR '','' # s"
  "skip_ws (CHR '':'' # s) = CHR '':'' # s"
  "skip_ws (CHR '' '' # s) = skip_ws s"
  by (simp_all add: skip_ws_newline_indent skip_ws_nonws is_ws_def) (simp add: skip_ws_def is_ws_def)

lemma scan_array_elems:
  assumes "xs \<noteq> []"
    and "\<forall>x\<in>set xs. wf_json x \<and> (\<forall>l rest m. safe_rest rest \<longrightarrow> length (dumps_at l x) \<le> m
            \<longrightarrow> scan_once m (dumps_at l x @ rest) = Some (x, rest))"
    and "length (join_with (CHR '','' # newline_indent k) (map (dumps_at k) xs)) < m"
  shows "scan_array m (join_with (CHR '','' # newline_indent k) (map (dumps_at k) xs)
            @ newline_indent l @ CHR '']'' # rest) = Some (xs, rest)"
  using assms
proof (induction xs arbitrary: m rule: list_nonempty_induct)
  case (single x)
  then obtain n where m: "m = Suc n" and n: "length (dumps_at k x) \<le> n"
    by (cases m) auto
  from single have "scan_once n (dumps_at k x @ newline_indent l @ CHR '']'' # rest)
      = Some (x, newline_indent l @ CHR '']'' # rest)"
    using n by (simp add: safe_rest_simps)
  then show ?case
    by (simp add: m skip_ws_close)
next
  case (cons x xs)
  then obtain y ys where xs: "xs = y # ys" by (cases xs) auto
  let ?sep = "CHR '','' # newline_indent k"
  let ?tail = "join_with ?sep (map (dumps_at k) xs) @ newline_indent l @ CHR '']'' # rest"
  have j: "join_with ?sep (map (dumps_at k) (x # xs))
      = dumps_at k x @ ?sep @ join_with ?sep (map (dumps_at k) xs)"
    by (simp add: xs)
  from cons.prems(2) j obtain n where m: "m = Suc n" and n: "length (dumps_at k x) \<le> n"
    and n': "length (join_with ?sep (map (dumps_at k) xs)) < n"
    by (cases m) auto
  from cons.prems(1) have "wf_json y" by (simp add: xs)
  then have sv: "starts_value ?tail"
    using starts_value_dumps [of y k]
    by (cases ys) (simp_all add: xs starts_value_append)
  have "scan_once n (dumps_at k x @ ?sep @ ?tail) = Some (x, ?sep @ ?tail)"
    using cons.prems(1) n by (simp add: safe_rest_simps)
  moreover have "scan_array n ?tail = Some (xs, rest)"
    using cons.IH [OF _ n'] cons.prems(1) by simp
  ultimately show ?case
    unfolding j
    by (simp add: m skip_ws_close skip_ws_newline_indent skip_ws_starts_value [OF sv])
qed

lemma starts_value_encode_str: "starts_value (encode_str s @ t)"
  by (simp add: encode_str_def starts_value_def is_ws_def)

lemma scan_object_step:
  assumes "scan_once n (dumps_at k v @ tail) = Some (v, tail)"
    and "starts_value (dumps_at k v @ tail)"
  shows "scan_object (Suc n) acc (encode_str key @ '': '' @ dumps_at k v @ tail)
     = (case skip_ws tail of
          [] \<Rightarrow> None
        | d # ds \<Rightarrow>
            if d = CHR ''}'' then Some (dict_set key v acc, ds)
            else if d = CHR '','' then scan_object n (dict_set key v acc) (skip_ws ds)
            else None)"
  using assms
  by (simp add: encode_str_def scan_string_encoded skip_ws_close skip_ws_starts_value)

lemma scan_object_members:
  assumes "kvs \<noteq> []"
    and "\<forall>kv\<in>set kvs. wf_json (snd kv) \<and> (\<forall>l rest m. safe_rest rest \<longrightarrow> length (dumps_at l (snd kv)) \<le> m
            \<longrightarrow> scan_once m (dumps_at l (snd kv) @ rest) = Some (snd kv, rest))"
    and "distinct (map fst kvs)"
    and "fst ` set acc \<inter> fst ` set kvs = {}"
    and "length (join_with (CHR '','' # newline_indent k)
            (map (\<lambda>kv. encode_str (fst kv) @ '': '' @ dumps_at k (snd kv)) kvs)) \<le> m"
  shows "scan_object m acc
           (join_with (CHR '','' # newline_indent k)
              (map (\<lambda>kv. encode_str (fst kv) @ '': '' @ dumps_at k (snd kv)) kvs)
            @ newline_indent l @ CHR ''}'' # rest) = Some (acc @ kvs, rest)"
  using assms
proof (induction kvs arbitrary: m acc rule: list_nonempty_induct)
  case (single kv)
  obtain key v where kv: "kv = (key, v)" by (cases kv)
  define tail where "tail = newline_indent l @ CHR ''}'' # rest"
  have j: "join_with (CHR '','' # newline_indent k)
              (map (\<lambda>kv. encode_str (fst kv) @ '': '' @ dumps_at k (snd kv)) [kv])
            @ newline_indent l @ CHR ''}'' # rest
      = encode_str key @ '': '' @ dumps_at k v @ tail"
    by (simp add: kv tail_def)
  from single.prems(4) obtain n where m: "m = Suc n" and n: "length (dumps_at k v) \<le> n"
    by (cases m) (auto simp: kv encode_str_def)
  have sv: "starts_value (dumps_at k v @ tail)"
    using single.prems(1) by (simp add: kv starts_value_dumps starts_value_append)
  have 1: "scan_once n (dumps_at k v @ tail) = Some (v, tail)"
    using single.prems(1) n by (simp add: kv tail_def safe_rest_simps)
  have 2: "dict_set key v acc = acc @ [(key, v)]"
    using single.prems(3) by (intro dict_set_fresh) (auto simp: kv)
  have "scan_object (Suc n) acc (encode_str key @ '': '' @ dumps_at k v @ tail)
      = Some (acc @ [kv], rest)"
    by (subst scan_object_step [OF 1 sv]) (simp add: tail_def skip_ws_close 2 kv)
  then show ?case unfolding j m .
next
  case (cons kv kvs)
  obtain key v where kv: "kv = (key, v)" by (cases kv)
  define tail where "tail = join_with (CHR '','' # newline_indent k)
              (map (\<lambda>kv. encode_str (fst kv) @ '': '' @ dumps_at k (snd kv)) kvs)
            @ newline_indent l @ CHR ''}'' # rest"
  from cons.hyps obtain kv' kvs' where kvs: "kvs = kv' # kvs'" by (cases kvs) auto
  have j: "join_with (CHR '','' # newline_indent k)
              (map (\<lambda>kv. encode_str (fst kv) @ '': '' @ dumps_at k (snd kv)) (kv # kvs))
            @ newline_indent l @ CHR ''}'' # rest
      = encode_str key @ '': '' @ dumps_at k v @ CHR '','' # newline_indent k @ tail"
    by (simp add: kvs kv tail_def)
  from cons.prems(4) obtain n where m: "m = Suc n" and n: "length (dumps_at k v) \<le> n"
    and n': "length (join_with (CHR '','' # newline_indent k)
              (map (\<lambda>kv. encode_str (fst kv) @ '': '' @ dumps_at k (snd kv)) kvs)) \<le> n"
    by (cases m) (auto simp: kv kvs encode_str_def)
  have svt: "starts_value tail"
    unfolding tail_def by (cases kvs') (simp_all add: kvs starts_value_encode_str)
  have sv: "starts_value (dumps_at k v @ CHR '','' # newline_indent k @ tail)"
    using cons.prems(1) by (simp add: kv starts_value_dumps starts_value_append)
  have 1: "scan_once n (dumps_at k v @ CHR '','' # newline_indent k @ tail)
      = Some (v, CHR '','' # newline_indent k @ tail)"
    using cons.prems(1) n by (simp add: kv safe_rest_simps)
  have 2: "dict_set key v acc = acc @ [(key, v)]"
    using cons.prems(3) by (intro dict_set_fresh) (auto simp: kv)
  have d: "fst ` set (acc @ [(key, v)]) \<inter> fst ` set kvs = {}"
    using cons.prems(2,3) by (auto simp: kv)
  have 3: "scan_object n (acc @ [(key, v)]) tail = Some ((acc @ [(key, v)]) @ kvs, rest)"
    unfolding tail_def using cons.IH [OF _ _ d n'] cons.prems(1,2) by simp
  have "scan_object (Suc n) acc
          (encode_str key @ '': '' @ dumps_at k v @ CHR '','' # newline_indent k @ tail)
      = Some (acc @ kv # kvs, rest)"
    by (subst scan_object_step [OF 1 sv])
       (simp add: skip_ws_close skip_ws_newline_indent skip_ws_starts_value [OF svt] 2 3 kv)
  then show ?case unfolding j m .
qed

lemma scan_once_dumps:
  "wf_json v \<Longrightarrow> safe_rest rest \<Longrightarrow> length (dumps_at l v) \<le> m \<Longrightarrow>
   scan_once m (dumps_at l v @ rest) = Some (v, rest)"
proof (induction v arbitrary: l rest m)
  case JNull
  then show ?case by (cases m) simp_all
next
  case (JBool b)
  then show ?case by (cases m; cases b) simp_all
next
  case (JInt i)
  then obtain n where "m = Suc n" using show_int_nonempty [of i] by (cases m) auto
  with JInt show ?case
    by (simp add: scan_once_number numchars_show_int number_token_show_int
        del: scan_once.simps)
next
  case (JFloat t)
  then obtain n where "m = Suc n"
    using starts_value_float [of t] by (cases m) (auto simp: starts_value_def)
  with JFloat show ?case by (simp add: scan_once_float del: scan_once.simps)
next
  case (JStr s)
  then obtain n where "m = Suc n" by (cases m) (auto simp: encode_str_def)
  then show ?case by (simp add: scan_once_str del: scan_once.simps)
next
  case (JArr xs)
  show ?case
  proof (cases "xs = []")
    case True
    with JArr.prems obtain n where "m = Suc n" by (cases m) auto
    with True show ?thesis by (simp add: skip_ws_nonws is_ws_def)
  next
    case False
    define body where "body = join_with (CHR '','' # newline_indent (Suc l)) (map (dumps_at (Suc l)) xs)
        @ newline_indent l @ CHR '']'' # rest"
    have t: "dumps_at l (JArr xs) @ rest = CHR ''['' # newline_indent (Suc l) @ body"
      by (simp add: False body_def)
    from JArr.prems(3) False obtain n where m: "m = Suc n"
      and n: "length (join_with (CHR '','' # newline_indent (Suc l)) (map (dumps_at (Suc l)) xs)) < n"
      by (cases m) (auto simp: newline_indent_def)
    have ih: "\<forall>x\<in>set xs. wf_json x \<and> (\<forall>l rest m. safe_rest rest \<longrightarrow> length (dumps_at l x) \<le> m
            \<longrightarrow> scan_once m (dumps_at l x @ rest) = Some (x, rest))"
      using JArr.IH JArr.prems(1) by (auto simp: list_all_iff)
    obtain y ys where xs: "xs = y # ys" using False by (cases xs) auto
    have "wf_json y" using ih xs by simp
    then have sv: "starts_value body"
      unfolding body_def using starts_value_dumps [of y "Suc l"]
      by (cases ys) (simp_all add: xs starts_value_append)
    then obtain d ds where dd: "body = d # ds" and d: "d \<noteq> CHR '']''"
      by (cases body) (auto simp: starts_value_def)
    have sk: "skip_ws (newline_indent (Suc l) @ body) = d # ds"
      unfolding skip_ws_newline_indent skip_ws_starts_value [OF sv] by (rule dd)
    have "scan_array n body = Some (xs, rest)"
      unfolding body_def by (rule scan_array_elems [OF False ih n])
    then have arr: "scan_array n (d # ds) = Some (xs, rest)" by (simp only: dd)
    show ?thesis unfolding t m by (simp add: sk arr d)
  qed
next
  case (JObj kvs)
  show ?case
  proof (cases "kvs = []")
    case True
    with JObj.prems obtain n where "m = Suc n" by (cases m) auto
    with True show ?thesis by (simp add: skip_ws_nonws is_ws_def)
  next
    case False
    define body where "body = join_with (CHR '','' # newline_indent (Suc l))
          (map (\<lambda>kv. encode_str (fst kv) @ '': '' @ dumps_at (Suc l) (snd kv)) kvs)
        @ newline_indent l @ CHR ''}'' # rest"
    have t: "dumps_at l (JObj kvs) @ rest = CHR ''{'' # newline_indent (Suc l) @ body"
      by (simp add: False body_def)
    from JObj.prems(3) False obtain n where m: "m = Suc n"
      and n: "length (join_with (CHR '','' # newline_indent (Suc l))
          (map (\<lambda>kv. encode_str (fst kv) @ '': '' @ dumps_at (Suc l) (snd kv)) kvs)) \<le> n"
      by (cases m) (auto simp: newline_indent_def)
    have ih: "\<forall>kv\<in>set kvs. wf_json (snd kv) \<and> (\<forall>l rest m. safe_rest rest
            \<longrightarrow> length (dumps_at l (snd kv)) \<le> m
            \<longrightarrow> scan_once m (dumps_at l (snd kv) @ rest) = Some (snd kv, rest))"
    proof
      fix kv assume kv: "kv \<in> set kvs"
      have s: "snd kv \<in> Basic_BNFs.snds kv" by (cases kv) simp
      from JObj.prems(1) kv have w: "wf_json (snd kv)" by (auto simp: list_all_iff)
      with JObj.IH [OF kv s] show "wf_json (snd kv) \<and> (\<forall>l rest m. safe_rest rest
            \<longrightarrow> length (dumps_at l (snd kv)) \<le> m
            \<longrightarrow> scan_once m (dumps_at l (snd kv) @ rest) = Some (snd kv, rest))"
        by blast
    qed
    have dist: "distinct (map fst kvs)" using JObj.prems(1) by simp
    obtain kv' kvs' where kvs: "kvs = kv' # kvs'" using False by (cases kvs) auto
    have sv: "starts_value body"
      unfolding body_def by (cases kvs') (simp_all add: kvs starts_value_encode_str)
    then obtain d ds where dd: "body = d # ds" and d: "d \<noteq> CHR ''}''"
      by (cases body) (auto simp: starts_value_def)
    have sk: "skip_ws (newline_indent (Suc l) @ body) = d # ds"
      unfolding skip_ws_newline_indent skip_ws_starts_value [OF sv] by (rule dd)
    have "scan_object n [] body = Some ([] @ kvs, rest)"
      unfolding body_def by (rule scan_object_members [OF False ih dist _ n]) simp
    then have obj: "scan_object n [] (d # ds) = Some (kvs, rest)" by (simp add: dd)
    show ?thesis unfolding t m by (simp add: sk obj d)
  qed
qed

lemma loads_dumps: "wf_json v \<Longrightarrow> loads (dumps v) = Some v"
proof -
  assume w: "wf_json v"
  have s: "skip_ws (dumps_at 0 v) = dumps_at 0 v"
    using starts_value_dumps [OF w, of 0] by (rule skip_ws_starts_value)
  have "scan_once (Suc (length (dumps_at 0 v))) (dumps_at 0 v @ []) = Some (v, [])"
    by (rule scan_once_dumps [OF w]) (simp_all add: safe_rest_simps)
  moreover have "skip_ws [] = []" by (simp add: skip_ws_def)
  ultimately show ?thesis
    by (simp add: loads_def dumps_def s del: scan_once.simps)
qed

section \<open>The bound of the decoder\<close>

lemma length_skip_ws: "length (skip_ws s) \<le> length s"
  by (simp add: skip_ws_def length_dropWhile_le)

lemma scan_string_shorter: "scan_string s = Some (t, r) \<Longrightarrow> length r < length s"
proof (induction s arbitrary: t r rule: scan_string.induct)
  case 1
  then show ?case by simp
next
  case (2 c cs)
  then show ?case
    by (auto simp: cons_text_def split: if_splits list.splits option.splits) fastforce+
qed

lemma scan_number_shorter: "scan_number s = Some (v, r) \<Longrightarrow> length r < length s"
proof -
  assume a: "scan_number s = Some (v, r)"
  then have t: "takeWhile is_numchar s \<noteq> []" and r: "r = dropWhile is_numchar s"
    by (auto simp: scan_number_def number_token_Nil split: option.splits)
  have "length (takeWhile is_numchar s) + length (dropWhile is_numchar s) = length s"
    by (metis length_append takeWhile_dropWhile_id)
  with t r show ?thesis by (cases "takeWhile is_numchar s") auto
qed


lemma skip_ws_Cons_length: "skip_ws s = d # ds \<Longrightarrow> length ds < length s"
  using length_skip_ws [of s] by simp

lemma scan_fuel:
  "(\<forall>s v r. scan_once n s = Some (v, r) \<longrightarrow>
        length r < length s \<and> (\<forall>m. length s - length r \<le> m \<longrightarrow> scan_once m s = Some (v, r)))
   \<and> (\<forall>s vs r. scan_array n s = Some (vs, r) \<longrightarrow>
        length r < length s \<and> (\<forall>m. length s - length r \<le> m \<longrightarrow> scan_array m s = Some (vs, r)))
   \<and> (\<forall>acc s d r. scan_object n acc s = Some (d, r) \<longrightarrow>
        length r < length s \<and> (\<forall>m. length s - length r \<le> m \<longrightarrow> scan_object m acc s = Some (d, r)))"
proof (induction n)
  case 0
  show ?case by simp
next
  case (Suc n)
  then have ih_once: "\<And>s v r. scan_once n s = Some (v, r) \<Longrightarrow>
        length r < length s \<and> (\<forall>m. length s - length r \<le> m \<longrightarrow> scan_once m s = Some (v, r))"
    and ih_arr: "\<And>s vs r. scan_array n s = Some (vs, r) \<Longrightarrow>
        length r < length s \<and> (\<forall>m. length s - length r \<le> m \<longrightarrow> scan_array m s = Some (vs, r))"
    and ih_obj: "\<And>acc s d r. scan_object n acc s = Some (d, r) \<Longrightarrow>
        length r < length s \<and> (\<forall>m. length s - length r \<le> m \<longrightarrow> scan_object m acc s = Some (d, r))"
    by blast+
  have 1: "length r < length s \<and> (\<forall>m. length s - length r \<le> m \<longrightarrow> scan_once m s = Some (v, r))"
    if a: "scan_once (Suc n) s = Some (v, r)" for s v r
  proof -
    from a obtain c cs where s: "s = c # cs" by (cases s) auto
    consider (str) "c = dquote"
      | (obj) "c \<noteq> dquote" "c = CHR ''{''"
      | (arr) "c \<noteq> dquote" "c \<noteq> CHR ''{''" "c = CHR ''[''"
      | (other) "c \<noteq> dquote" "c \<noteq> CHR ''{''" "c \<noteq> CHR ''[''"
      by blast
    then show ?thesis
    proof cases
      case str
      with a s obtain t where t: "scan_string cs = Some (t, r)" and v: "v = JStr t"
        by (auto split: option.splits)
      from scan_string_shorter [OF t] have l: "length r < length s" by (simp add: s)
      have "scan_once m s = Some (v, r)" if "length s - length r \<le> m" for m
      proof -
        from that l obtain m' where "m = Suc m'" by (cases m) auto
        then show ?thesis using t v str by (simp add: s)
      qed
      with l show ?thesis by blast
    next
      case obj
      from a s obj obtain d ds where sk: "skip_ws cs = d # ds"
        by (cases "skip_ws cs") auto
      show ?thesis
      proof (cases "d = CHR ''}''")
        case True
        with a s obj sk have v: "v = JObj []" and r: "r = ds" by auto
        from skip_ws_Cons_length [OF sk] have l: "length r < length s" by (simp add: s r)
        have "scan_once m s = Some (v, r)" if "length s - length r \<le> m" for m
        proof -
          from that l obtain m' where "m = Suc m'" by (cases m) auto
          then show ?thesis using v r obj sk True by (simp add: s)
        qed
        with l show ?thesis by blast
      next
        case False
        with a s obj sk obtain kvs where o: "scan_object n [] (d # ds) = Some (kvs, r)"
          and v: "v = JObj kvs"
          by (auto split: option.splits)
        from ih_obj [OF o] have lr: "length r < length (d # ds)"
          and f: "\<And>m. length (d # ds) - length r \<le> m \<Longrightarrow> scan_object m [] (d # ds) = Some (kvs, r)"
          by blast+
        from length_skip_ws [of cs] sk have lk: "length (d # ds) \<le> length cs" by simp
        with lr have l: "length r < length s" by (simp add: s)
        have "scan_once m s = Some (v, r)" if "length s - length r \<le> m" for m
        proof -
          from that l obtain m' where m: "m = Suc m'" by (cases m) auto
          with that lk have "length (d # ds) - length r \<le> m'" by (simp add: s)
          from f [OF this] show ?thesis using v obj sk False by (simp add: s m)
        qed
        with l show ?thesis by blast
      qed
    next
      case arr
      from a s arr obtain d ds where sk: "skip_ws cs = d # ds"
        by (cases "skip_ws cs") auto
      show ?thesis
      proof (cases "d = CHR '']''")
        case True
        with a s arr sk have v: "v = JArr []" and r: "r = ds" by auto
        from skip_ws_Cons_length [OF sk] have l: "length r < length s" by (simp add: s r)
        have "scan_once m s = Some (v, r)" if "length s - length r \<le> m" for m
        proof -
          from that l obtain m' where "m = Suc m'" by (cases m) auto
          then show ?thesis using v r arr sk True by (simp add: s)
        qed
        with l show ?thesis by blast
      next
        case False
        with a s arr sk obtain vs where o: "scan_array n (d # ds) = Some (vs, r)"
          and v: "v = JArr vs"
          by (auto split: option.splits)
        from ih_arr [OF o]
        have lr: "length r < length (d # ds)"
          and f: "\<And>m. length (d # ds) - length r \<le> m \<Longrightarrow> scan_array m (d # ds) = Some (vs, r)"
          by blast+
        from length_skip_ws [of cs] sk have lk: "length (d # ds) \<le> length cs" by simp
        with lr have l: "length r < length s" by (simp add: s)
        have "scan_once m s = Some (v, r)" if "length s - length r \<le> m" for m
        proof -
          from that l obtain m' where m: "m = Suc m'" by (cases m) auto
          with that lk have "length (d # ds) - length r \<le> m'" by (simp add: s)
          from f [OF this] show ?thesis using v arr sk False by (simp add: s m)
        qed
        with l show ?thesis by blast
      qed
    next
      case other
      have indep: "scan_once (Suc k) s = scan_once (Suc n) s" for k
        using other by (simp add: s)
      have l: "length r < length s"
        using a other scan_number_shorter [of s v r]
        by (auto simp: s split: if_splits)
      have "scan_once m s = Some (v, r)" if "length s - length r \<le> m" for m
      proof -
        from that l obtain m' where "m = Suc m'" by (cases m) auto
        then show ?thesis using indep [of m'] a by simp
      qed
      with l show ?thesis by blast
    qed
  qed
  have 2: "length r < length s \<and> (\<forall>m. length s - length r \<le> m \<longrightarrow> scan_array m s = Some (vs, r))"
    if a: "scan_array (Suc n) s = Some (vs, r)" for s vs r
  proof -
    from a obtain v r1 where o: "scan_once n s = Some (v, r1)"
      by (auto split: option.splits)
    from ih_once [OF o] have l1: "length r1 < length s"
      and f1: "\<And>m. length s - length r1 \<le> m \<Longrightarrow> scan_once m s = Some (v, r1)"
      by blast+
    from a o obtain d ds where sk: "skip_ws r1 = d # ds"
      by (cases "skip_ws r1") auto
    from skip_ws_Cons_length [OF sk] have lds: "length ds < length r1" .
    show ?thesis
    proof (cases "d = CHR '']''")
      case True
      with a o sk have vs: "vs = [v]" and r: "r = ds" by auto
      from lds l1 have l: "length r < length s" by (simp add: r)
      have "scan_array m s = Some (vs, r)" if "length s - length r \<le> m" for m
      proof -
        from that l obtain m' where m: "m = Suc m'" by (cases m) auto
        with that lds l1 have "length s - length r1 \<le> m'" by (simp add: r)
        from f1 [OF this] show ?thesis using sk True vs r by (simp add: m)
      qed
      with l show ?thesis by blast
    next
      case False
      with a o sk have comma: "d = CHR '',''" by (auto split: if_splits)
      with a o sk False obtain vs' where o2: "scan_array n (skip_ws ds) = Some (vs', r)"
        and vs: "vs = v # vs'"
        by (auto split: option.splits)
      from ih_arr [OF o2] have l2: "length r < length (skip_ws ds)"
        and f2: "\<And>m. length (skip_ws ds) - length r \<le> m \<Longrightarrow> scan_array m (skip_ws ds) = Some (vs', r)"
        by blast+
      from l2 length_skip_ws [of ds] lds l1 have l: "length r < length s" by simp
      have "scan_array m s = Some (vs, r)" if "length s - length r \<le> m" for m
      proof -
        from that l obtain m' where m: "m = Suc m'" by (cases m) auto
        with that lds l1 l2 length_skip_ws [of ds]
        have b1: "length s - length r1 \<le> m'" and b2: "length (skip_ws ds) - length r \<le> m'"
          by simp_all
        from f1 [OF b1] f2 [OF b2] show ?thesis using sk False comma vs by (simp add: m)
      qed
      with l show ?thesis by blast
    qed
  qed
  have 3: "length r < length s \<and> (\<forall>m. length s - length r \<le> m \<longrightarrow> scan_object m acc s = Some (d, r))"
    if a: "scan_object (Suc n) acc s = Some (d, r)" for acc s d r
  proof -
    from a obtain cs where s: "s = dquote # cs"
      by (cases s) (auto split: if_splits)
    from a s obtain key r0 where k: "scan_string cs = Some (key, r0)"
      by (auto split: option.splits)
    from scan_string_shorter [OF k] have l0: "length r0 < length cs" .
    from a s k obtain r1 where sk0: "skip_ws r0 = CHR '':'' # r1"
      by (cases "skip_ws r0") (auto split: if_splits)
    from skip_ws_Cons_length [OF sk0] have lr1: "length r1 < length r0" .
    from a s k sk0 obtain v r2 where o: "scan_once n (skip_ws r1) = Some (v, r2)"
      by (auto split: option.splits)
    from ih_once [OF o] have l2: "length r2 < length (skip_ws r1)"
      and f1: "\<And>m. length (skip_ws r1) - length r2 \<le> m \<Longrightarrow> scan_once m (skip_ws r1) = Some (v, r2)"
      by blast+
    from a s k sk0 o obtain e es where sk2: "skip_ws r2 = e # es"
      by (cases "skip_ws r2") auto
    from skip_ws_Cons_length [OF sk2] have les: "length es < length r2" .
    note lens = l0 lr1 l2 les length_skip_ws [of r1] length_skip_ws [of es]
    show ?thesis
    proof (cases "e = CHR ''}''")
      case True
      with a s k sk0 o sk2 have d: "d = dict_set key v acc" and r: "r = es" by auto
      from lens have l: "length r < length s" by (simp add: r s)
      have "scan_object m acc s = Some (d, r)" if "length s - length r \<le> m" for m
      proof -
        from that l obtain m' where m: "m = Suc m'" by (cases m) auto
        with that lens have "length (skip_ws r1) - length r2 \<le> m'" by (simp add: r s)
        from f1 [OF this] show ?thesis using k sk0 sk2 True d r by (simp add: m s)
      qed
      with l show ?thesis by blast
    next
      case False
      with a s k sk0 o sk2 have comma: "e = CHR '',''" by (auto split: if_splits)
      with a s k sk0 o sk2 False
      have o2: "scan_object n (dict_set key v acc) (skip_ws es) = Some (d, r)"
        by auto
      from ih_obj [OF o2] have l3: "length r < length (skip_ws es)"
        and f2: "\<And>m. length (skip_ws es) - length r \<le> m \<Longrightarrow>
              scan_object m (dict_set key v acc) (skip_ws es) = Some (d, r)"
        by blast+
      from lens l3 have l: "length r < length s" by (simp add: s)
      have "scan_object m acc s = Some (d, r)" if "length s - length r \<le> m" for m
      proof -
        from that l obtain m' where m: "m = Suc m'" by (cases m) auto
        with that lens l3
        have b1: "length (skip_ws r1) - length r2 \<le> m'" and b2: "length (skip_ws es) - length r \<le> m'"
          by (simp_all add: s)
        from f1 [OF b1] f2 [OF b2] show ?thesis using k sk0 sk2 False comma by (simp add: m s)
      qed
      with l show ?thesis by blast
    qed
  qed
  from 1 2 3 show ?case by blast
qed

text \<open>
  The bound that \<open>loads\<close> sets is enough for every text: a value that some bound
  decodes is decoded under the bound of \<open>loads\<close> as well.
\<close>

lemma loads_bound_enough:
  assumes "scan_once n (skip_ws s) = Some (v, r)"
  shows "scan_once (Suc (length s)) (skip_ws s) = Some (v, r)"
proof -
  from scan_fuel [of n] assms
  have "\<forall>m. length (skip_ws s) - length r \<le> m \<longrightarrow> scan_once m (skip_ws s) = Some (v, r)"
    by blast
  moreover have "length (skip_ws s) - length r \<le> Suc (length s)"
    using length_skip_ws [of s] by simp
  ultimately show ?thesis by blast
qed

lemma loads_Some_iff:
  "loads s = Some v \<longleftrightarrow> (\<exists>n r. scan_once n (skip_ws s) = Some (v, r) \<and> skip_ws r = [])"
proof
  assume "loads s = Some v"
  then obtain r where "scan_once (Suc (length s)) (skip_ws s) = Some (v, r)" and "skip_ws r = []"
    by (auto simp: loads_def simp del: scan_once.simps split: option.splits if_splits)
  then show "\<exists>n r. scan_once n (skip_ws s) = Some (v, r) \<and> skip_ws r = []"
    by blast
next
  assume "\<exists>n r. scan_once n (skip_ws s) = Some (v, r) \<and> skip_ws r = []"
  then obtain n r where o: "scan_once n (skip_ws s) = Some (v, r)" and r: "skip_ws r = []" by blast
  from o have "scan_once (Suc (length s)) (skip_ws s) = Some (v, r)" by (rule loads_bound_enough)
  with r show "loads s = Some v" by (simp add: loads_def del: scan_once.simps)
qed


section \<open>The key schemas, decoded\<close>

lemma wf_json_strings [simp]: "wf_json (JStr s)" "wf_json (JInt i)" "wf_json JNull"
  by simp_all

lemma wf_count_json: "wf_json (count_json c)"
  by (cases c) (simp_all add: count_json_def)

lemma keys_dict_set: "fst ` set (dict_set k v d) = insert k (fst ` set d)"
  by (induction d) auto

lemma distinct_dict_set: "distinct (map fst d) \<Longrightarrow> distinct (map fst (dict_set k v d))"
proof (induction d)
  case Nil
  show ?case by simp
next
  case (Cons kv d)
  then show ?case
    using keys_dict_set [of k v d] by (auto simp: image_iff)
qed

lemma values_dict_set: "snd ` set (dict_set k v d) \<subseteq> insert v (snd ` set d)"
  by (induction d) auto

lemma disk_loop_keys:
  "fst ` set (disk_loop pv ps acc)
     = fst ` set acc \<union> {m \<in> set ps. \<exists>u. disk_usage pv m = Inr u}"
  by (induction ps arbitrary: acc) (auto simp: keys_dict_set split: sum.splits)

lemma disk_loop_distinct:
  "distinct (map fst acc) \<Longrightarrow> distinct (map fst (disk_loop pv ps acc))"
  by (induction ps arbitrary: acc) (auto simp: distinct_dict_set split: sum.splits)

lemma disk_loop_values:
  "snd ` set (disk_loop pv ps acc) \<subseteq> snd ` set acc \<union> range usage_json"
proof (induction ps arbitrary: acc)
  case Nil
  show ?case by simp
next
  case (Cons m ps)
  show ?case
  proof (cases "disk_usage pv m")
    case (Inl e)
    with Cons show ?thesis by simp
  next
    case (Inr u)
    have "snd ` set (disk_loop pv ps (dict_set m (usage_json u) acc))
        \<subseteq> snd ` set (dict_set m (usage_json u) acc) \<union> range usage_json"
      by (rule Cons.IH)
    also have "\<dots> \<subseteq> snd ` set acc \<union> range usage_json"
      using values_dict_set [of m "usage_json u" acc] by auto
    finally show ?thesis using Inr by simp
  qed
qed

lemma wf_usage_json: "wf_json (usage_json u)"
  by (simp add: usage_json_def)

lemma keys_usage_json: "keys_of (usage_json u) = [''total'', ''used'', ''free'', ''percent'']"
  by (simp add: usage_json_def keys_of_def)

lemma wf_disk:
  "wf_json (JObj (disk_loop pv ps []))"
proof -
  have "\<forall>kv\<in>set (disk_loop pv ps []). wf_json (snd kv)"
    using disk_loop_values [of pv ps "[]"] wf_usage_json by auto
  then show ?thesis
    by (simp add: disk_loop_distinct list_all_iff)
qed

lemma wf_freq_json:
  "(case f of Some (cur, lo, hi) \<Rightarrow>
        float_repr_ok (frepr cur) \<and> float_repr_ok (frepr lo) \<and> float_repr_ok (frepr hi)
    | None \<Rightarrow> True) \<Longrightarrow> wf_json (freq_json f)"
  by (auto simp: freq_json_def split: option.splits)

lemma cpu_info_shape:
  assumes "cpu_info pv = Inr v"
  shows "\<exists>percents freq physical logical.
           cpu_percent pv = Inr percents \<and> cpu_freq pv = Inr freq
         \<and> cpu_count_physical pv = Inr physical \<and> cpu_count_logical pv = Inr logical
         \<and> v = JObj [(''cpu_percent'', JArr (map (\<lambda>f. JFloat (frepr f)) percents)),
                     (''cpu_freq'', freq_json freq),
                     (''cpu_count'', count_json physical),
                     (''cpu_count_logical'', count_json logical)]"
  using assms by (auto simp: cpu_info_def bind_res_def split: sum.splits)

lemma wf_cpu:
  assumes "cpu_info pv = Inr v" and "cpu_floats_ok pv"
  shows "wf_json v"
proof -
  from cpu_info_shape [OF assms(1)] obtain percents freq physical logical where
    p: "cpu_percent pv = Inr percents" and f: "cpu_freq pv = Inr freq"
    and v: "v = JObj [(''cpu_percent'', JArr (map (\<lambda>f. JFloat (frepr f)) percents)),
                     (''cpu_freq'', freq_json freq),
                     (''cpu_count'', count_json physical),
                     (''cpu_count_logical'', count_json logical)]"
    by blast
  from assms(2) p have 1: "list_all (\<lambda>f. float_repr_ok (frepr f)) percents"
    by (simp add: cpu_floats_ok_def)
  from assms(2) f have 2: "wf_json (freq_json freq)"
    by (intro wf_freq_json) (auto simp: cpu_floats_ok_def split: option.splits)
  from 1 2 show ?thesis
    by (simp add: v wf_count_json list_all_iff)
qed

lemma mem_info_shape:
  assumes "mem_info pv = Inr v"
  shows "wf_json v \<and> keys_of v = [''total'', ''available'', ''percent_used'', ''swap_total'', ''swap_used'']"
  using assms by (auto simp: mem_info_def bind_res_def keys_of_def split: sum.splits)

lemma net_info_shape:
  assumes "net_info pv = Inr v"
  shows "wf_json v \<and> keys_of v = [''bytes_sent'', ''bytes_recv'', ''packets_sent'', ''packets_recv'']"
  using assms by (auto simp: net_info_def bind_res_def keys_of_def split: sum.splits)

lemma disk_info_shape:
  assumes "disk_info_of pv = Inr v"
  shows "wf_json v
       \<and> (\<exists>ps. disk_partitions pv = Inr ps
            \<and> set (keys_of v) = {m \<in> set ps. \<exists>u. disk_usage pv m = Inr u})
       \<and> (\<exists>d. v = JObj d \<and> list_all (\<lambda>kv. keys_of (snd kv) = [''total'', ''used'', ''free'', ''percent'']) d)"
proof -
  from assms obtain ps where ps: "disk_partitions pv = Inr ps" and v: "v = JObj (disk_loop pv ps [])"
    by (auto simp: disk_info_of_def bind_res_def split: sum.splits)
  have k: "\<forall>kv\<in>set (disk_loop pv ps []). keys_of (snd kv) = [''total'', ''used'', ''free'', ''percent'']"
    using disk_loop_values [of pv ps "[]"] keys_usage_json by auto
  have w: "wf_json v" unfolding v by (rule wf_disk)
  have ks: "set (keys_of v) = {m \<in> set ps. \<exists>u. disk_usage pv m = Inr u}"
    using disk_loop_keys [of pv ps "[]"] by (simp add: v keys_of_def)
  from w ks k ps show ?thesis
    by (auto simp: v list_all_iff)
qed

text \<open>
  C6, as the code has it. Whenever the provider's calls return and the floats of the
  \<open>cpu\<close> reading are floats, the response of \<open>cpu\<close> is the encoding of a dictionary
  that decodes to itself and has exactly the keys \<open>cpu_percent\<close>, \<open>cpu_freq\<close>,
  \<open>cpu_count\<close>, \<open>cpu_count_logical\<close>. The same holds for \<open>memory\<close> with the keys
  \<open>total\<close>, \<open>available\<close>, \<open>percent_used\<close>, \<open>swap_total\<close>, \<open>swap_used\<close>, for \<open>netstat\<close>
  with \<open>bytes_sent\<close>, \<open>bytes_recv\<close>, \<open>packets_sent\<close>, \<open>packets_recv\<close>, and for
  \<open>diskspace\<close>, whose keys are the mount points with a usage reading, each with a
  dictionary of \<open>total\<close>, \<open>used\<close>, \<open>free\<close>, \<open>percent\<close>.
\<close>

theorem structured_round_trip:
  "(cpu_info pv = Inr v \<and> cpu_floats_ok pv \<longrightarrow>
      get_cpu_info pv st args = (Inr (dumps v), st) \<and> loads (dumps v) = Some v
      \<and> keys_of v = [''cpu_percent'', ''cpu_freq'', ''cpu_count'', ''cpu_count_logical''])
   \<and> (mem_info pv = Inr v \<longrightarrow>
      get_memory_info pv st args = (Inr (dumps v), st) \<and> loads (dumps v) = Some v
      \<and> keys_of v = [''total'', ''available'', ''percent_used'', ''swap_total'', ''swap_used''])
   \<and> (net_info pv = Inr v \<longrightarrow>
      get_network_stats pv st args = (Inr (dumps v), st) \<and> loads (dumps v) = Some v
      \<and> keys_of v = [''bytes_sent'', ''bytes_recv'', ''packets_sent'', ''packets_recv''])
   \<and> (disk_info_of pv = Inr v \<longrightarrow>
      get_disk_space pv st args = (Inr (dumps v), st) \<and> loads (dumps v) = Some v
      \<and> (\<exists>ps. disk_partitions pv = Inr ps
            \<and> set (keys_of v) = {m \<in> set ps. \<exists>u. disk_usage pv m = Inr u})
      \<and> (\<exists>d. v = JObj d
            \<and> list_all (\<lambda>kv. keys_of (snd kv) = [''total'', ''used'', ''free'', ''percent'']) d))"
proof (intro conjI impI)
  assume a: "cpu_info pv = Inr v \<and> cpu_floats_ok pv"
  then show "get_cpu_info pv st args = (Inr (dumps v), st)" by (simp add: get_cpu_info_def)
  from a have "wf_json v" by (auto intro: wf_cpu)
  then show "loads (dumps v) = Some v" by (rule loads_dumps)
  from a cpu_info_shape [of pv v]
  show "keys_of v = [''cpu_percent'', ''cpu_freq'', ''cpu_count'', ''cpu_count_logical'']"
    by (auto simp: keys_of_def)
next
  assume a: "mem_info pv = Inr v"
  then show "get_memory_info pv st args = (Inr (dumps v), st)" by (simp add: get_memory_info_def)
  from mem_info_shape [OF a] show "loads (dumps v) = Some v" by (auto intro: loads_dumps)
  from mem_info_shape [OF a]
  show "keys_of v = [''total'', ''available'', ''percent_used'', ''swap_total'', ''swap_used'']"
    by simp
next
  assume a: "net_info pv = Inr v"
  then show "get_network_stats pv st args = (Inr (dumps v), st)"
    by (simp add: get_network_stats_def)
  from net_info_shape [OF a] show "loads (dumps v) = Some v" by (auto intro: loads_dumps)
  from net_info_shape [OF a]
  show "keys_of v = [''bytes_sent'', ''bytes_recv'', ''packets_sent'', ''packets_recv'']"
    by simp
next
  assume a: "disk_info_of pv = Inr v"
  then show "get_disk_space pv st args = (Inr (dumps v), st)" by (simp add: get_disk_space_def)
  from disk_info_shape [OF a] show "loads (dumps v) = Some v" by (auto intro: loads_dumps)
  from disk_info_shape [OF a]
  show "\<exists>ps. disk_partitions pv = Inr ps
            \<and> set (keys_of v) = {m \<in> set ps. \<exists>u. disk_usage pv m = Inr u}"
    by blast
  from disk_info_shape [OF a]
  show "\<exists>d. v = JObj d
            \<and> list_all (\<lambda>kv. keys_of (snd kv) = [''total'', ''used'', ''free'', ''percent'']) d"
    by blast
qed

theorem structured_round_trip_witness:
  "map_option keys_of (loads (response_text (get_cpu_info quiet_host fresh_server [])))
     = Some [''cpu_percent'', ''cpu_freq'', ''cpu_count'', ''cpu_count_logical'']
   \<and> map_option keys_of (loads (response_text (get_memory_info quiet_host fresh_server [])))
     = Some [''total'', ''available'', ''percent_used'', ''swap_total'', ''swap_used'']
   \<and> map_option keys_of (loads (response_text (get_network_stats quiet_host fresh_server [])))
     = Some [''bytes_sent'', ''bytes_recv'', ''packets_sent'', ''packets_recv'']
   \<and> map_option (\<lambda>v. set (keys_of v)) (loads (response_text (get_disk_space quiet_host fresh_server [])))
     = Some {''/''}"
proof -
  have ok: "cpu_floats_ok quiet_host" by code_simp
  obtain c where c: "cpu_info quiet_host = Inr c"
    by (simp add: cpu_info_def quiet_host_def bind_res_def)
  obtain m where m: "mem_info quiet_host = Inr m"
    by (simp add: mem_info_def quiet_host_def bind_res_def)
  obtain n where n: "net_info quiet_host = Inr n"
    by (simp add: net_info_def quiet_host_def bind_res_def)
  obtain d where d: "disk_info_of quiet_host = Inr d"
    by (simp add: disk_info_of_def quiet_host_def bind_res_def)
  have ps: "disk_partitions quiet_host = Inr [''/'', ''/mnt/usb'']"
    by (simp add: quiet_host_def)
  have us: "{m \<in> set [''/'', ''/mnt/usb'']. \<exists>u. disk_usage quiet_host m = Inr u} = {''/''}"
    by (auto simp: quiet_host_def)
  from structured_round_trip [of quiet_host c fresh_server "[]"] c ok
  have 1: "map_option keys_of (loads (response_text (get_cpu_info quiet_host fresh_server [])))
     = Some [''cpu_percent'', ''cpu_freq'', ''cpu_count'', ''cpu_count_logical'']"
    by (simp add: response_text_def)
  from structured_round_trip [of quiet_host m fresh_server "[]"] m
  have 2: "map_option keys_of (loads (response_text (get_memory_info quiet_host fresh_server [])))
     = Some [''total'', ''available'', ''percent_used'', ''swap_total'', ''swap_used'']"
    by (simp add: response_text_def)
  from structured_round_trip [of quiet_host n fresh_server "[]"] n
  have 3: "map_option keys_of (loads (response_text (get_network_stats quiet_host fresh_server [])))
     = Some [''bytes_sent'', ''bytes_recv'', ''packets_sent'', ''packets_recv'']"
    by (simp add: response_text_def)
  from structured_round_trip [of quiet_host d fresh_server "[]"] d ps us
  have 4: "map_option (\<lambda>v. set (keys_of v)) (loads (response_text (get_disk_space quiet_host fresh_server [])))
     = Some {''/''}"
    by (simp add: response_text_def)
  from 1 2 3 4 show ?thesis by simp
qed


end
